theory Spec2Isabelle
  imports Main "HOL-Library.Word" "HOL-Library.AList"
begin

section \<open>JavaScript values used by the two scripts\<close>

text \<open>
  The archive reader and the CSV parser exist twice: in the second script of
  \<^verbatim>\<open>src/scripts/build-static-gtfs.mjs\<close> (headed \<^verbatim>\<open>scripts/make-static-json.mjs\<close>) and in
  the second script of \<^verbatim>\<open>src/scripts/fetch-gtfsrt.mjs\<close> (headed
  \<^verbatim>\<open>scripts/make-calendars.mjs\<close>). The two copies differ only in layout, in an unused
  parameter of \<^verbatim>\<open>readUInt32LE\<close> and in the spelling of the filter for empty lines
  (\<^verbatim>\<open>l => l.length > 0\<close> and \<^verbatim>\<open>Boolean\<close>, the same on strings), so one embedding covers
  both.

  A JavaScript string is a sequence of UTF-16 code units, which is what
  \<^verbatim>\<open>line[i]\<close>, \<^verbatim>\<open>.length\<close> and the regular expressions of the scripts see.
  A \<^verbatim>\<open>Buffer\<close> is a sequence of bytes. Numbers read from buffers are below
  \<open>2 ^ 32\<close> and all sums stay far below \<open>2 ^ 53\<close>, so they are natural numbers
  (or integers where the source lets them go negative).
\<close>

type_synonym jschar = "16 word"
type_synonym jsstring = "jschar list"

definition js :: "string \<Rightarrow> jsstring" where
  "js s = map (\<lambda>c. of_nat (of_char c)) s"

definition QUOTE :: jschar where "QUOTE = 0x22"
definition COMMA :: jschar where "COMMA = 0x2C"
definition LF :: jschar where "LF = 0x0A"
definition CR :: jschar where "CR = 0x0D"
definition BOM :: jschar where "BOM = 0xFEFF"

text \<open>
  A plain object \<^verbatim>\<open>{}\<close> with string values: its own properties, listed in the order
  in which they were first assigned (the order in which JavaScript enumerates them
  differs for keys that are array indices; no statement here is about enumeration).
  \<^verbatim>\<open>obj[k] = v\<close> overwrites the value of an existing key in place and appends a new
  key. The one key for which assignment of a string creates no own property is
  \<^verbatim>\<open>__proto__\<close>: the assignment reaches the accessor of \<^verbatim>\<open>Object.prototype\<close>,
  which ignores a value that is neither an object nor null.
\<close>

type_synonym jsobj = "(jsstring \<times> jsstring) list"

definition PROTO :: jsstring where
  "PROTO = js ''__proto__''"

definition obj_set :: "jsobj \<Rightarrow> jsstring \<Rightarrow> jsstring \<Rightarrow> jsobj" where
  "obj_set obj k v = (if k = PROTO then obj else AList.update k v obj)"

section \<open>The CSV parser\<close>

subsection \<open>\<^verbatim>\<open>splitCsvLine\<close>\<close>

text \<open>
  The loop of \<^verbatim>\<open>splitCsvLine\<close>: the state is \<^verbatim>\<open>inQ\<close>, \<^verbatim>\<open>cur\<close>, \<^verbatim>\<open>out\<close> and the
  characters from index \<^verbatim>\<open>i\<close> on. \<^verbatim>\<open>line[i + 1] === '"'\<close> is false at the end of the
  line (the read gives \<^verbatim>\<open>undefined\<close>); the extra \<^verbatim>\<open>i++\<close> skips the second quote.
\<close>

fun splitLoop :: "bool \<Rightarrow> jsstring \<Rightarrow> jsstring list \<Rightarrow> jsstring \<Rightarrow> jsstring list" where
  "splitLoop inQ cur out [] = out @ [cur]"
| "splitLoop inQ cur out (ch # rest) =
     (if ch = QUOTE then
        (case rest of
           [] \<Rightarrow> splitLoop (\<not> inQ) cur out rest
         | nxt # rest' \<Rightarrow>
             if inQ \<and> nxt = QUOTE then splitLoop inQ (cur @ [QUOTE]) out rest'
             else splitLoop (\<not> inQ) cur out rest)
      else if ch = COMMA \<and> \<not> inQ then splitLoop inQ [] (out @ [cur]) rest
      else splitLoop inQ (cur @ [ch]) out rest)"

definition splitCsvLine :: "jsstring \<Rightarrow> jsstring list" where
  "splitCsvLine line = splitLoop False [] [] line"

subsection \<open>\<^verbatim>\<open>parseCsv\<close>\<close>

text \<open>\<^verbatim>\<open>text.replace(re, '')\<close> where \<^verbatim>\<open>re\<close> is the one-character pattern U+FEFF: it has no anchor and no \<^verbatim>\<open>g\<close> flag, so
  the leftmost occurrence of the character is removed, wherever it is.\<close>

fun replaceFirst :: "jschar \<Rightarrow> jsstring \<Rightarrow> jsstring" where
  "replaceFirst c [] = []"
| "replaceFirst c (x # xs) = (if x = c then xs else x # replaceFirst c xs)"

text \<open>\<^verbatim>\<open>.split(/\r?\n/)\<close>: every line feed separates, together with a carriage return
  directly before it; \<open>cur\<close> is the piece being collected.\<close>

fun splitLinesFrom :: "jsstring \<Rightarrow> jsstring \<Rightarrow> jsstring list" where
  "splitLinesFrom cur [] = [cur]"
| "splitLinesFrom cur [c] = (if c = LF then [cur, []] else [cur @ [c]])"
| "splitLinesFrom cur (c # d # cs) =
     (if c = LF then cur # splitLinesFrom [] (d # cs)
      else if c = CR \<and> d = LF then cur # splitLinesFrom [] cs
      else splitLinesFrom (cur @ [c]) (d # cs))"

definition splitLines :: "jsstring \<Rightarrow> jsstring list" where
  "splitLines text = splitLinesFrom [] text"

text \<open>\<^verbatim>\<open>header.forEach((h, j) => { row[h] = cols[j] ?? ""; })\<close>, from index \<open>j\<close> on.\<close>

fun forEachHeader :: "jsstring list \<Rightarrow> nat \<Rightarrow> jsstring list \<Rightarrow> jsobj \<Rightarrow> jsobj" where
  "forEachHeader [] j cols row = row"
| "forEachHeader (h # hs) j cols row =
     forEachHeader hs (Suc j) cols (obj_set row h (if j < length cols then cols ! j else []))"

text \<open>The \<^verbatim>\<open>for\<close> loop over the lines after the first.\<close>

fun parseRows :: "jsstring list \<Rightarrow> jsstring list \<Rightarrow> jsobj list \<Rightarrow> jsobj list" where
  "parseRows header [] out = out"
| "parseRows header (l # ls) out =
     (let cols = splitCsvLine l in
      if length cols = 1 \<and> cols ! 0 = [] then parseRows header ls out
      else parseRows header ls (out @ [forEachHeader header 0 cols []]))"

definition csvLines :: "jsstring \<Rightarrow> jsstring list" where
  "csvLines text = filter (\<lambda>l. length l > 0) (splitLines (replaceFirst BOM text))"

definition parseCsv :: "jsstring \<Rightarrow> jsobj list" where
  "parseCsv text =
     (let lines = csvLines text in
      if length lines = 0 then []
      else parseRows (splitCsvLine (lines ! 0)) (drop 1 lines) [])"

section \<open>The archive reader\<close>

subsection \<open>Buffers and positioned reads\<close>

type_synonym byte = "8 word"
type_synonym buffer = "byte list"

text \<open>
  Every \<^verbatim>\<open>throw\<close> of the reader and every exception its library calls can raise:
  the two \<^verbatim>\<open>throw new Error\<close> of \<^verbatim>\<open>readFromZip\<close> and \<^verbatim>\<open>extractEntryAsText\<close> for a
  missing end-of-central-directory record and a broken local header, the one for
  a compression method that is neither 0 nor 8 (its message carries the method),
  the \<^verbatim>\<open>RangeError\<close> of a \<^verbatim>\<open>Buffer\<close> read outside the buffer or of an
  \<^verbatim>\<open>fs.readSync\<close> with a length it refuses, a failure of
  \<^verbatim>\<open>zlib.inflateRawSync\<close>, and \<^verbatim>\<open>fs.openSync\<close> on a path that does not exist.
\<close>

datatype error =
    EocdNotFound
  | LocalHeaderBroken
  | UnsupportedMethod nat
  | RangeError
  | InflateError
  | ENOENT

definition andThen :: "error + 'a \<Rightarrow> ('a \<Rightarrow> error + 'b) \<Rightarrow> error + 'b" where
  "andThen r f = (case r of Inl e \<Rightarrow> Inl e | Inr v \<Rightarrow> f v)"

definition Buffer_alloc :: "nat \<Rightarrow> buffer" where
  "Buffer_alloc n = replicate n 0"

text \<open>
  \<^verbatim>\<open>fs.readSync(fd, buf, 0, len, pos)\<close> on a regular file with the given contents,
  which does not change during the call. Node.js first coerces the length with
  \<^verbatim>\<open>length |= 0\<close>, which makes a length from \<open>2 ^ 31\<close> up to \<open>2 ^ 32\<close> negative, and
  refuses with a \<^verbatim>\<open>RangeError\<close> a length that is negative or exceeds the buffer. Otherwise
  the bytes of the file from \<open>pos\<close>, at most as many as the length, overwrite the start
  of \<open>buf\<close>; what the file does not have stays as it was in \<open>buf\<close>. \<^verbatim>\<open>Buffer.alloc\<close> gives
  zero bytes. The reader passes as lengths the constants 4, 30 and at most 65557, and
  the 32-bit fields \<^verbatim>\<open>cdSize\<close> and \<^verbatim>\<open>compSize\<close> that it found in the archive.
\<close>

definition readSync :: "buffer \<Rightarrow> buffer \<Rightarrow> nat \<Rightarrow> nat \<Rightarrow> error + buffer" where
  "readSync file buf len pos =
     (let l = len mod 2 ^ 32 in
      if 2 ^ 31 \<le> l \<or> length buf < l then Inl RangeError
      else (let got = take l (drop pos file) in Inr (got @ drop (length got) buf)))"

definition le16 :: "buffer \<Rightarrow> nat \<Rightarrow> nat" where
  "le16 b i = unat (b ! i) + 256 * unat (b ! (i + 1))"

definition le32 :: "buffer \<Rightarrow> nat \<Rightarrow> nat" where
  "le32 b i = unat (b ! i) + 256 * unat (b ! (i + 1))
              + 65536 * unat (b ! (i + 2)) + 16777216 * unat (b ! (i + 3))"

text \<open>\<^verbatim>\<open>buf.readUInt16LE(i)\<close> and \<^verbatim>\<open>buf.readUInt32LE(i)\<close> of a \<^verbatim>\<open>Buffer\<close>.\<close>

definition readUInt16LE :: "buffer \<Rightarrow> nat \<Rightarrow> error + nat" where
  "readUInt16LE b i = (if i + 2 \<le> length b then Inr (le16 b i) else Inl RangeError)"

definition readUInt32LE :: "buffer \<Rightarrow> nat \<Rightarrow> error + nat" where
  "readUInt32LE b i = (if i + 4 \<le> length b then Inr (le32 b i) else Inl RangeError)"

text \<open>The helper \<^verbatim>\<open>readUInt32LE(fd, pos)\<close> of the scripts: four bytes of the file.\<close>

definition fileReadUInt32LE :: "buffer \<Rightarrow> nat \<Rightarrow> error + nat" where
  "fileReadUInt32LE file pos =
     andThen (readSync file (Buffer_alloc 4) 4 pos) (\<lambda>b. readUInt32LE b 0)"

subsection \<open>What the reader takes from the runtime\<close>

text \<open>
  \<^verbatim>\<open>String.prototype.toLowerCase\<close>, \<^verbatim>\<open>buf.toString("utf8")\<close> and
  \<^verbatim>\<open>zlib.inflateRawSync\<close> belong to Node.js, not to the repository: the reader is
  modelled for any three such functions. \<open>asciiRuntime\<close> is the instance used to run
  the reader on concrete archives: on ASCII text it lowers and decodes as Node.js does,
  and the concrete archives below hold ASCII names and ASCII contents. Its inflation
  fails on every input; the one input it is given below, the two bytes \<open>7A 7A\<close>, is not
  a complete deflate stream.
\<close>

record runtime =
  toLowerCase :: "jsstring \<Rightarrow> jsstring"
  toStringUtf8 :: "buffer \<Rightarrow> jsstring"
  inflateRawSync :: "buffer \<Rightarrow> error + buffer"

definition asciiLower :: "jschar \<Rightarrow> jschar" where
  "asciiLower c = (if 0x41 \<le> c \<and> c \<le> 0x5A then c + 0x20 else c)"

definition asciiRuntime :: runtime where
  "asciiRuntime =
     \<lparr> toLowerCase = map asciiLower,
       toStringUtf8 = map ucast,
       inflateRawSync = (\<lambda>b. Inl InflateError) \<rparr>"

text \<open>
  \<^verbatim>\<open>path.basename(p)\<close> of Node.js on POSIX: trailing slashes are dropped, then
  everything up to the last remaining slash.
\<close>

definition SLASH :: jschar where "SLASH = 0x2F"

definition basename :: "jsstring \<Rightarrow> jsstring" where
  "basename p = rev (takeWhile (\<lambda>c. c \<noteq> SLASH) (dropWhile (\<lambda>c. c = SLASH) (rev p)))"

subsection \<open>\<^verbatim>\<open>extractEntryAsText\<close>\<close>

record entry =
  name :: jsstring
  localHdrOff :: nat
  compSize :: nat
  uncompSize :: nat
  "method" :: nat

definition EOCD_SIG :: nat where "EOCD_SIG = 0x06054b50"
definition CEN_SIG :: nat where "CEN_SIG = 0x02014b50"
definition LOCAL_SIG :: nat where "LOCAL_SIG = 0x04034b50"

text \<open>
  \<^verbatim>\<open>extractEntryAsText\<close> in its two halves. \<open>readEntryData\<close> is the function up to
  the second \<^verbatim>\<open>fs.readSync\<close>: the local header, its signature, the two lengths and the
  bytes of the member. \<open>decompress\<close> is the \<^verbatim>\<open>if\<close> chain on \<^verbatim>\<open>e.method\<close> with the
  final \<^verbatim>\<open>raw.toString("utf8")\<close>.
\<close>

definition readEntryData :: "buffer \<Rightarrow> entry \<Rightarrow> error + buffer" where
  "readEntryData file e =
     andThen (readSync file (Buffer_alloc 30) 30 (localHdrOff e)) (\<lambda>header.
     andThen (readUInt32LE header 0) (\<lambda>sig.
     if sig \<noteq> LOCAL_SIG then Inl LocalHeaderBroken
     else
       andThen (readUInt16LE header 26) (\<lambda>nameLen.
       andThen (readUInt16LE header 28) (\<lambda>extraLen.
       let dataStart = localHdrOff e + 30 + nameLen + extraLen
       in readSync file (Buffer_alloc (compSize e)) (compSize e) dataStart))))"

definition decompress :: "runtime \<Rightarrow> entry \<Rightarrow> buffer \<Rightarrow> error + jsstring" where
  "decompress rt e data =
     (if method e = 0 then Inr (toStringUtf8 rt data)
      else if method e = 8 then
        andThen (inflateRawSync rt data) (\<lambda>raw. Inr (toStringUtf8 rt raw))
      else Inl (UnsupportedMethod (method e)))"

definition extractEntryAsText :: "runtime \<Rightarrow> buffer \<Rightarrow> entry \<Rightarrow> error + jsstring" where
  "extractEntryAsText rt file e = andThen (readEntryData file e) (decompress rt e)"

subsection \<open>\<^verbatim>\<open>readFromZip\<close>\<close>

text \<open>
  The backward \<^verbatim>\<open>for\<close> loop over the tail, from index \<open>i\<close> down: the value is
  \<^verbatim>\<open>eocdOffset\<close> after the loop, \<open>-1\<close> when no index matched.
\<close>

function scanEocd :: "nat \<Rightarrow> nat \<Rightarrow> buffer \<Rightarrow> int \<Rightarrow> error + int" where
  "scanEocd fsize readTail tail i =
     (if i \<ge> 0 then
        andThen (readUInt32LE tail (nat i)) (\<lambda>v.
        if v = EOCD_SIG then Inr (int fsize - int readTail + i)
        else scanEocd fsize readTail tail (i - 1))
      else Inr (- 1))"
  by pat_completeness auto
termination
  by (relation "measure (\<lambda>(fsize, readTail, tail, i). nat (i + 1))") auto

definition findEocd :: "buffer \<Rightarrow> error + nat" where
  "findEocd file =
     (let fsize = length file;
          maxComment = 0xffff;
          readTail = min fsize (22 + maxComment)
      in andThen (readSync file (Buffer_alloc readTail) readTail (fsize - readTail)) (\<lambda>tail.
         andThen (scanEocd fsize readTail tail (int readTail - 22)) (\<lambda>eocdOffset.
         if eocdOffset < 0 then Inl EocdNotFound else Inr (nat eocdOffset))))"

text \<open>The two fields taken from the end-of-central-directory record: \<^verbatim>\<open>cdSize\<close> and
  \<^verbatim>\<open>cdOffset\<close>.\<close>

definition readEocd :: "buffer \<Rightarrow> error + (nat \<times> nat)" where
  "readEocd file =
     andThen (findEocd file) (\<lambda>eocdOffset.
     andThen (fileReadUInt32LE file (eocdOffset + 12)) (\<lambda>cdSize.
     andThen (fileReadUInt32LE file (eocdOffset + 16)) (\<lambda>cdOffset.
     Inr (cdSize, cdOffset))))"

text \<open>The central directory as the reader fetches it: \<^verbatim>\<open>cdBuf\<close>.\<close>

definition readCentralDirectory :: "buffer \<Rightarrow> error + buffer" where
  "readCentralDirectory file =
     andThen (readEocd file) (\<lambda>(cdSize, cdOffset).
     readSync file (Buffer_alloc cdSize) cdSize cdOffset)"

text \<open>The \<^verbatim>\<open>while\<close> loop over the central directory, from position \<open>p\<close> on.\<close>

function walkCentral :: "runtime \<Rightarrow> buffer \<Rightarrow> nat \<Rightarrow> entry list \<Rightarrow> error + entry list" where
  "walkCentral rt cdBuf p entries =
     (if p + 46 \<le> length cdBuf then
        andThen (readUInt32LE cdBuf p) (\<lambda>sig.
        if sig \<noteq> CEN_SIG then Inr entries
        else
          andThen (readUInt16LE cdBuf (p + 10)) (\<lambda>method.
          andThen (readUInt32LE cdBuf (p + 20)) (\<lambda>compSize.
          andThen (readUInt32LE cdBuf (p + 24)) (\<lambda>uncompSize.
          andThen (readUInt16LE cdBuf (p + 28)) (\<lambda>nameLen.
          andThen (readUInt16LE cdBuf (p + 30)) (\<lambda>extraLen.
          andThen (readUInt16LE cdBuf (p + 32)) (\<lambda>commLen.
          andThen (readUInt32LE cdBuf (p + 42)) (\<lambda>localHdrOff.
          let name = toStringUtf8 rt (take nameLen (drop (p + 46) cdBuf)) in
          walkCentral rt cdBuf (p + 46 + nameLen + extraLen + commLen)
            (entries @ [\<lparr> name = name, localHdrOff = localHdrOff, compSize = compSize,
                           uncompSize = uncompSize, method = method \<rparr>])))))))))
      else Inr entries)"
  by pat_completeness auto
termination
  by (relation "measure (\<lambda>(rt, cdBuf, p, entries). length cdBuf - p)") auto

definition pick :: "runtime \<Rightarrow> jsstring list \<Rightarrow> entry list \<Rightarrow> entry list" where
  "pick rt wantNames entries =
     (let wantSet = set (map (toLowerCase rt) wantNames) in
      filter (\<lambda>e. toLowerCase rt (basename (name e)) \<in> wantSet) entries)"

text \<open>The \<^verbatim>\<open>for (const e of pick)\<close> loop, \<open>out\<close> being the object filled so far.\<close>

fun extractAll :: "runtime \<Rightarrow> buffer \<Rightarrow> entry list \<Rightarrow> jsobj \<Rightarrow> error + jsobj" where
  "extractAll rt file [] out = Inr out"
| "extractAll rt file (e # es) out =
     andThen (extractEntryAsText rt file e) (\<lambda>text.
     extractAll rt file es (obj_set out (basename (name e)) text))"

text \<open>The list \<^verbatim>\<open>entries\<close> after the walk.\<close>

definition centralEntries :: "runtime \<Rightarrow> buffer \<Rightarrow> error + entry list" where
  "centralEntries rt file =
     andThen (readCentralDirectory file) (\<lambda>cdBuf. walkCentral rt cdBuf 0 [])"

text \<open>The statements of \<^verbatim>\<open>readFromZip\<close> between \<^verbatim>\<open>fs.openSync\<close> and
  \<^verbatim>\<open>fs.closeSync\<close>, on the contents of the opened file.\<close>

definition readFromZipBody :: "runtime \<Rightarrow> buffer \<Rightarrow> jsstring list \<Rightarrow> error + jsobj" where
  "readFromZipBody rt file wantNames =
     andThen (centralEntries rt file) (\<lambda>entries.
     extractAll rt file (pick rt wantNames entries) [])"

text \<open>
  The file system as far as the reader touches it: the files by path and the
  descriptors that are open. \<^verbatim>\<open>readFromZip\<close> has no \<^verbatim>\<open>try\<close>: an exception leaves the
  function at once, and \<^verbatim>\<open>fs.closeSync(fd)\<close> is its last statement but one.
\<close>

record fs =
  files :: "(jsstring \<times> buffer) list"
  open_fds :: "nat list"

definition openSync :: "fs \<Rightarrow> jsstring \<Rightarrow> error + (nat \<times> buffer \<times> fs)" where
  "openSync s path =
     (case map_of (files s) path of
        None \<Rightarrow> Inl ENOENT
      | Some content \<Rightarrow>
          (let fd = Suc (fold max (open_fds s) 2)
           in Inr (fd, content, s\<lparr>open_fds := fd # open_fds s\<rparr>)))"

definition closeSync :: "fs \<Rightarrow> nat \<Rightarrow> fs" where
  "closeSync s fd = s\<lparr>open_fds := removeAll fd (open_fds s)\<rparr>"

definition readFromZip ::
  "runtime \<Rightarrow> fs \<Rightarrow> jsstring \<Rightarrow> jsstring list \<Rightarrow> (error + jsobj) \<times> fs" where
  "readFromZip rt s zipFile wantNames =
     (case openSync s zipFile of
        Inl e \<Rightarrow> (Inl e, s)
      | Inr (fd, file, s1) \<Rightarrow>
          (case readFromZipBody rt file wantNames of
             Inl e \<Rightarrow> (Inl e, s1)
           | Inr out \<Rightarrow> (Inr out, closeSync s1 fd)))"

section \<open>Vocabulary of the statements\<close>

text \<open>The bytes of a file in a window, zero where the file has ended.\<close>

definition fileBytes :: "buffer \<Rightarrow> nat \<Rightarrow> nat \<Rightarrow> buffer" where
  "fileBytes file pos len =
     map (\<lambda>k. if pos + k < length file then file ! (pos + k) else 0) [0..<len]"

definition fileU16 :: "buffer \<Rightarrow> nat \<Rightarrow> nat" where
  "fileU16 file pos = le16 (fileBytes file pos 2) 0"

definition fileU32 :: "buffer \<Rightarrow> nat \<Rightarrow> nat" where
  "fileU32 file pos = le32 (fileBytes file pos 4) 0"

text \<open>The last \<open>min (length file) 65557\<close> bytes of the archive.\<close>

definition tailOf :: "buffer \<Rightarrow> buffer" where
  "tailOf file = drop (length file - min (length file) 65557) file"

text \<open>Index \<open>i\<close> of the tail leaves room for the 22 fixed bytes of an
  end-of-central-directory record and carries its signature.\<close>

definition eocdAt :: "buffer \<Rightarrow> nat \<Rightarrow> bool" where
  "eocdAt tail i = (i + 22 \<le> length tail \<and> le32 tail i = EOCD_SIG)"

text \<open>The positional zip of the specification: the header columns paired with the
  fields, short rows padded with empty strings, long rows cut.\<close>

definition zipRow :: "jsstring list \<Rightarrow> jsstring list \<Rightarrow> jsobj" where
  "zipRow header cols = zip header (take (length header) (cols @ replicate (length header) []))"

text \<open>The non-empty lines of a text as it is given, before anything is removed.\<close>

definition nonEmptyLines :: "jsstring \<Rightarrow> jsstring list" where
  "nonEmptyLines text = filter (\<lambda>l. length l > 0) (splitLines text)"

text \<open>The number of non-empty pieces into which a text splits, \<open>cur\<close> being the piece
  already begun.\<close>

definition countLines :: "jsstring \<Rightarrow> jsstring \<Rightarrow> nat" where
  "countLines cur t = length (filter (\<lambda>l. length l > 0) (splitLinesFrom cur t))"

text \<open>The last entry of a list whose base name is \<open>k\<close>, letter for letter.\<close>

definition lastEntryNamed :: "jsstring \<Rightarrow> entry list \<Rightarrow> entry option" where
  "lastEntryNamed k es = find (\<lambda>e. basename (name e) = k) (rev es)"

text \<open>The result of a call as an optional value.\<close>

definition okValue :: "error + 'a \<Rightarrow> 'a option" where
  "okValue r = (case r of Inl e \<Rightarrow> None | Inr v \<Rightarrow> Some v)"

section \<open>Concrete archives\<close>

text \<open>
  Small archives, byte for byte. \<open>calendarZip\<close> holds the stored member
  \<^verbatim>\<open>calendar.txt\<close>; \<open>hugeSizeZip\<close> is the same archive with the compressed size in the
  central directory set to \<open>2 ^ 31\<close>; \<open>hugeCdZip\<close> is an end-of-central-directory record
  alone, its size of the central directory set to \<open>2 ^ 31\<close>; \<open>twoDirsZip\<close> holds \<^verbatim>\<open>a/x.txt\<close> (content \<^verbatim>\<open>1\<close>) and \<^verbatim>\<open>b/x.txt\<close>
  (content \<^verbatim>\<open>2\<close>); \<open>method12Zip\<close> holds \<^verbatim>\<open>m.txt\<close> with method code 12, and
  \<open>method12BrokenZip\<close> is the same archive with the first byte of the local header
  changed; \<open>brokenCentralZip\<close> holds \<^verbatim>\<open>p.txt\<close> and \<^verbatim>\<open>q.txt\<close>, the first byte of the
  second central-directory record changed.
\<close>

definition calendarZip :: buffer where
  "calendarZip =
     [0x50, 0x4B, 0x03, 0x04, 0x14, 0x00, 0x00, 0x00, 0x00, 0x00, 0x00, 0x00, 0x21, 0x58, 0x8C, 0x55,
      0x8A, 0x22, 0x17, 0x00, 0x00, 0x00, 0x17, 0x00, 0x00, 0x00, 0x0C, 0x00, 0x00, 0x00, 0x63, 0x61,
      0x6C, 0x65, 0x6E, 0x64, 0x61, 0x72, 0x2E, 0x74, 0x78, 0x74, 0x73, 0x65, 0x72, 0x76, 0x69, 0x63,
      0x65, 0x5F, 0x69, 0x64, 0x2C, 0x6D, 0x6F, 0x6E, 0x64, 0x61, 0x79, 0x0A, 0x53, 0x31, 0x2C, 0x31,
      0x0A, 0x50, 0x4B, 0x01, 0x02, 0x14, 0x03, 0x14, 0x00, 0x00, 0x00, 0x00, 0x00, 0x00, 0x00, 0x21,
      0x58, 0x8C, 0x55, 0x8A, 0x22, 0x17, 0x00, 0x00, 0x00, 0x17, 0x00, 0x00, 0x00, 0x0C, 0x00, 0x00,
      0x00, 0x00, 0x00, 0x00, 0x00, 0x00, 0x00, 0x00, 0x00, 0x80, 0x01, 0x00, 0x00, 0x00, 0x00, 0x63,
      0x61, 0x6C, 0x65, 0x6E, 0x64, 0x61, 0x72, 0x2E, 0x74, 0x78, 0x74, 0x50, 0x4B, 0x05, 0x06, 0x00,
      0x00, 0x00, 0x00, 0x01, 0x00, 0x01, 0x00, 0x3A, 0x00, 0x00, 0x00, 0x41, 0x00, 0x00, 0x00, 0x00,
      0x00]"

definition twoDirsZip :: buffer where
  "twoDirsZip =
     [0x50, 0x4B, 0x03, 0x04, 0x14, 0x00, 0x00, 0x00, 0x00, 0x00, 0x00, 0x00, 0x21, 0x58, 0xB7, 0xEF,
      0xDC, 0x83, 0x01, 0x00, 0x00, 0x00, 0x01, 0x00, 0x00, 0x00, 0x07, 0x00, 0x00, 0x00, 0x61, 0x2F,
      0x78, 0x2E, 0x74, 0x78, 0x74, 0x31, 0x50, 0x4B, 0x03, 0x04, 0x14, 0x00, 0x00, 0x00, 0x00, 0x00,
      0x00, 0x00, 0x21, 0x58, 0x0D, 0xBE, 0xD5, 0x1A, 0x01, 0x00, 0x00, 0x00, 0x01, 0x00, 0x00, 0x00,
      0x07, 0x00, 0x00, 0x00, 0x62, 0x2F, 0x78, 0x2E, 0x74, 0x78, 0x74, 0x32, 0x50, 0x4B, 0x01, 0x02,
      0x14, 0x03, 0x14, 0x00, 0x00, 0x00, 0x00, 0x00, 0x00, 0x00, 0x21, 0x58, 0xB7, 0xEF, 0xDC, 0x83,
      0x01, 0x00, 0x00, 0x00, 0x01, 0x00, 0x00, 0x00, 0x07, 0x00, 0x00, 0x00, 0x00, 0x00, 0x00, 0x00,
      0x00, 0x00, 0x00, 0x00, 0x80, 0x01, 0x00, 0x00, 0x00, 0x00, 0x61, 0x2F, 0x78, 0x2E, 0x74, 0x78,
      0x74, 0x50, 0x4B, 0x01, 0x02, 0x14, 0x03, 0x14, 0x00, 0x00, 0x00, 0x00, 0x00, 0x00, 0x00, 0x21,
      0x58, 0x0D, 0xBE, 0xD5, 0x1A, 0x01, 0x00, 0x00, 0x00, 0x01, 0x00, 0x00, 0x00, 0x07, 0x00, 0x00,
      0x00, 0x00, 0x00, 0x00, 0x00, 0x00, 0x00, 0x00, 0x00, 0x80, 0x01, 0x26, 0x00, 0x00, 0x00, 0x62,
      0x2F, 0x78, 0x2E, 0x74, 0x78, 0x74, 0x50, 0x4B, 0x05, 0x06, 0x00, 0x00, 0x00, 0x00, 0x02, 0x00,
      0x02, 0x00, 0x6A, 0x00, 0x00, 0x00, 0x4C, 0x00, 0x00, 0x00, 0x00, 0x00]"

definition method12BrokenZip :: buffer where
  "method12BrokenZip =
     [0x51, 0x4B, 0x03, 0x04, 0x14, 0x00, 0x00, 0x00, 0x0C, 0x00, 0x00, 0x00, 0x21, 0x58, 0xA1, 0x1B,
      0xD9, 0x24, 0x02, 0x00, 0x00, 0x00, 0x02, 0x00, 0x00, 0x00, 0x05, 0x00, 0x00, 0x00, 0x6D, 0x2E,
      0x74, 0x78, 0x74, 0x7A, 0x7A, 0x50, 0x4B, 0x01, 0x02, 0x14, 0x03, 0x14, 0x00, 0x00, 0x00, 0x0C,
      0x00, 0x00, 0x00, 0x21, 0x58, 0xA1, 0x1B, 0xD9, 0x24, 0x02, 0x00, 0x00, 0x00, 0x02, 0x00, 0x00,
      0x00, 0x05, 0x00, 0x00, 0x00, 0x00, 0x00, 0x00, 0x00, 0x00, 0x00, 0x00, 0x00, 0x80, 0x01, 0x00,
      0x00, 0x00, 0x00, 0x6D, 0x2E, 0x74, 0x78, 0x74, 0x50, 0x4B, 0x05, 0x06, 0x00, 0x00, 0x00, 0x00,
      0x01, 0x00, 0x01, 0x00, 0x33, 0x00, 0x00, 0x00, 0x25, 0x00, 0x00, 0x00, 0x00, 0x00]"

definition method12Zip :: buffer where
  "method12Zip =
     [0x50, 0x4B, 0x03, 0x04, 0x14, 0x00, 0x00, 0x00, 0x0C, 0x00, 0x00, 0x00, 0x21, 0x58, 0xA1, 0x1B,
      0xD9, 0x24, 0x02, 0x00, 0x00, 0x00, 0x02, 0x00, 0x00, 0x00, 0x05, 0x00, 0x00, 0x00, 0x6D, 0x2E,
      0x74, 0x78, 0x74, 0x7A, 0x7A, 0x50, 0x4B, 0x01, 0x02, 0x14, 0x03, 0x14, 0x00, 0x00, 0x00, 0x0C,
      0x00, 0x00, 0x00, 0x21, 0x58, 0xA1, 0x1B, 0xD9, 0x24, 0x02, 0x00, 0x00, 0x00, 0x02, 0x00, 0x00,
      0x00, 0x05, 0x00, 0x00, 0x00, 0x00, 0x00, 0x00, 0x00, 0x00, 0x00, 0x00, 0x00, 0x80, 0x01, 0x00,
      0x00, 0x00, 0x00, 0x6D, 0x2E, 0x74, 0x78, 0x74, 0x50, 0x4B, 0x05, 0x06, 0x00, 0x00, 0x00, 0x00,
      0x01, 0x00, 0x01, 0x00, 0x33, 0x00, 0x00, 0x00, 0x25, 0x00, 0x00, 0x00, 0x00, 0x00]"

definition brokenCentralZip :: buffer where
  "brokenCentralZip =
     [0x50, 0x4B, 0x03, 0x04, 0x14, 0x00, 0x00, 0x00, 0x00, 0x00, 0x00, 0x00, 0x21, 0x58, 0xB7, 0xEF,
      0xDC, 0x83, 0x01, 0x00, 0x00, 0x00, 0x01, 0x00, 0x00, 0x00, 0x05, 0x00, 0x00, 0x00, 0x70, 0x2E,
      0x74, 0x78, 0x74, 0x31, 0x50, 0x4B, 0x03, 0x04, 0x14, 0x00, 0x00, 0x00, 0x00, 0x00, 0x00, 0x00,
      0x21, 0x58, 0x0D, 0xBE, 0xD5, 0x1A, 0x01, 0x00, 0x00, 0x00, 0x01, 0x00, 0x00, 0x00, 0x05, 0x00,
      0x00, 0x00, 0x71, 0x2E, 0x74, 0x78, 0x74, 0x32, 0x50, 0x4B, 0x01, 0x02, 0x14, 0x03, 0x14, 0x00,
      0x00, 0x00, 0x00, 0x00, 0x00, 0x00, 0x21, 0x58, 0xB7, 0xEF, 0xDC, 0x83, 0x01, 0x00, 0x00, 0x00,
      0x01, 0x00, 0x00, 0x00, 0x05, 0x00, 0x00, 0x00, 0x00, 0x00, 0x00, 0x00, 0x00, 0x00, 0x00, 0x00,
      0x80, 0x01, 0x00, 0x00, 0x00, 0x00, 0x70, 0x2E, 0x74, 0x78, 0x74, 0x51, 0x4B, 0x01, 0x02, 0x14,
      0x03, 0x14, 0x00, 0x00, 0x00, 0x00, 0x00, 0x00, 0x00, 0x21, 0x58, 0x0D, 0xBE, 0xD5, 0x1A, 0x01,
      0x00, 0x00, 0x00, 0x01, 0x00, 0x00, 0x00, 0x05, 0x00, 0x00, 0x00, 0x00, 0x00, 0x00, 0x00, 0x00,
      0x00, 0x00, 0x00, 0x80, 0x01, 0x24, 0x00, 0x00, 0x00, 0x71, 0x2E, 0x74, 0x78, 0x74, 0x50, 0x4B,
      0x05, 0x06, 0x00, 0x00, 0x00, 0x00, 0x02, 0x00, 0x02, 0x00, 0x66, 0x00, 0x00, 0x00, 0x48, 0x00,
      0x00, 0x00, 0x00, 0x00]"

definition hugeSizeZip :: buffer where
  "hugeSizeZip =
     [0x50, 0x4B, 0x03, 0x04, 0x14, 0x00, 0x00, 0x00, 0x00, 0x00, 0x00, 0x00, 0x21, 0x58, 0x8C, 0x55,
      0x8A, 0x22, 0x17, 0x00, 0x00, 0x00, 0x17, 0x00, 0x00, 0x00, 0x0C, 0x00, 0x00, 0x00, 0x63, 0x61,
      0x6C, 0x65, 0x6E, 0x64, 0x61, 0x72, 0x2E, 0x74, 0x78, 0x74, 0x73, 0x65, 0x72, 0x76, 0x69, 0x63,
      0x65, 0x5F, 0x69, 0x64, 0x2C, 0x6D, 0x6F, 0x6E, 0x64, 0x61, 0x79, 0x0A, 0x53, 0x31, 0x2C, 0x31,
      0x0A, 0x50, 0x4B, 0x01, 0x02, 0x14, 0x03, 0x14, 0x00, 0x00, 0x00, 0x00, 0x00, 0x00, 0x00, 0x21,
      0x58, 0x8C, 0x55, 0x8A, 0x22, 0x00, 0x00, 0x00, 0x80, 0x17, 0x00, 0x00, 0x00, 0x0C, 0x00, 0x00,
      0x00, 0x00, 0x00, 0x00, 0x00, 0x00, 0x00, 0x00, 0x00, 0x80, 0x01, 0x00, 0x00, 0x00, 0x00, 0x63,
      0x61, 0x6C, 0x65, 0x6E, 0x64, 0x61, 0x72, 0x2E, 0x74, 0x78, 0x74, 0x50, 0x4B, 0x05, 0x06, 0x00,
      0x00, 0x00, 0x00, 0x01, 0x00, 0x01, 0x00, 0x3A, 0x00, 0x00, 0x00, 0x41, 0x00, 0x00, 0x00, 0x00,
      0x00]"

definition hugeCdZip :: buffer where
  "hugeCdZip =
     [0x50, 0x4B, 0x05, 0x06, 0x00, 0x00, 0x00, 0x00, 0x00, 0x00, 0x00, 0x00, 0x00, 0x00, 0x00, 0x80,
      0x00, 0x00, 0x00, 0x00, 0x00, 0x00]"

text \<open>The central-directory entries of these archives, as the walk records them.\<close>

definition calendarEntry :: entry where
  "calendarEntry =
     \<lparr> name = js ''calendar.txt'', localHdrOff = 0, compSize = 23, uncompSize = 23,
       method = 0 \<rparr>"

definition hugeEntry :: entry where
  "hugeEntry =
     \<lparr> name = js ''calendar.txt'', localHdrOff = 0, compSize = 2147483648, uncompSize = 23,
       method = 0 \<rparr>"

definition axEntry :: entry where
  "axEntry =
     \<lparr> name = js ''a/x.txt'', localHdrOff = 0, compSize = 1, uncompSize = 1, method = 0 \<rparr>"

definition bxEntry :: entry where
  "bxEntry =
     \<lparr> name = js ''b/x.txt'', localHdrOff = 38, compSize = 1, uncompSize = 1, method = 0 \<rparr>"

definition pEntry :: entry where
  "pEntry =
     \<lparr> name = js ''p.txt'', localHdrOff = 0, compSize = 1, uncompSize = 1, method = 0 \<rparr>"

definition method12Entry :: entry where
  "method12Entry =
     \<lparr> name = js ''m.txt'', localHdrOff = 0, compSize = 2, uncompSize = 2, method = 12 \<rparr>"

text \<open>A file system that holds one of the archives under the path \<^verbatim>\<open>gtfs.zip\<close>, with
  no descriptor open.\<close>

definition diskWith :: "buffer \<Rightarrow> fs" where
  "diskWith file = \<lparr> files = [(js ''gtfs.zip'', file)], open_fds = [] \<rparr>"

section \<open>Properties of the CSV parser\<close>

lemma js_Nil [simp]: "js [] = []"
  by (simp add: js_def)

lemma js_Cons [simp]: "js (c # s) = of_nat (of_char c) # js s"
  by (simp add: js_def)

text \<open>
  C6. The field splitter parses the line \<^verbatim>\<open>a,"b,c",d\<close> to the three fields
  \<^verbatim>\<open>a\<close>, \<^verbatim>\<open>b,c\<close>, \<^verbatim>\<open>d\<close>, and the line \<^verbatim>\<open>a,"b""c",d\<close> to \<^verbatim>\<open>a\<close>, \<^verbatim>\<open>b"c\<close>, \<^verbatim>\<open>d\<close>.
  In any state of the loop that is inside quotes, a comma is appended to the current
  field and ends no field, and two consecutive quotes append one quote and leave the
  loop inside quotes.
\<close>

theorem splitCsvLine_quoting:
  \<open>splitCsvLine (js ''a,"b,c",d'') = [js ''a'', js ''b,c'', js ''d'']
   \<and> splitCsvLine (js ''a,"b""c",d'') = [js ''a'', js ''b"c'', js ''d'']
   \<and> splitLoop True cur out (COMMA # rest) = splitLoop True (cur @ [COMMA]) out rest
   \<and> splitLoop True cur out (QUOTE # QUOTE # rest) = splitLoop True (cur @ [QUOTE]) out rest\<close>
  by (simp add: splitCsvLine_def QUOTE_def COMMA_def)

subsection \<open>Rows\<close>

lemma parseRows_eq:
  "parseRows header ls out =
     out @ map (\<lambda>l. forEachHeader header 0 (splitCsvLine l) [])
              (filter (\<lambda>l. splitCsvLine l \<noteq> [[]]) ls)"
proof (induction ls arbitrary: out)
  case Nil
  then show ?case by simp
next
  case (Cons l ls)
  have single: "(length cols = Suc 0 \<and> cols ! 0 = []) = (cols = [[]])" for cols :: "jsstring list"
    by (cases cols) auto
  show ?case by (simp add: Cons.IH Let_def single)
qed

lemma parseCsv_eq:
  "parseCsv text =
     (case csvLines text of
        [] \<Rightarrow> []
      | h # ls \<Rightarrow> map (\<lambda>l. forEachHeader (splitCsvLine h) 0 (splitCsvLine l) [])
                      (filter (\<lambda>l. splitCsvLine l \<noteq> [[]]) ls))"
  by (cases "csvLines text") (simp_all add: parseCsv_def Let_def parseRows_eq)

text \<open>The row being built: the columns already assigned, then the remaining ones.\<close>

lemma take_pad: "k \<le> n \<Longrightarrow> take k (x # replicate n x) = replicate k x"
  using take_replicate [of k "Suc n" x] by (simp del: take_replicate)

lemma zipRow_Cons:
  "zipRow (h # hs) cols = (h, if cols = [] then [] else hd cols) # zipRow hs (tl cols)"
  by (cases cols) (simp_all add: zipRow_def take_pad)

lemma update_fresh: "k \<notin> fst ` set al \<Longrightarrow> AList.update k v al = al @ [(k, v)]"
  by (induction al) auto

lemma forEachHeader_append:
  "PROTO \<notin> set hs \<Longrightarrow> distinct hs \<Longrightarrow> set hs \<inter> fst ` set row = {} \<Longrightarrow>
   forEachHeader hs j cols row = row @ zipRow hs (drop j cols)"
proof (induction hs arbitrary: j row)
  case Nil
  then show ?case by (simp add: zipRow_def)
next
  case (Cons h hs)
  have fresh: "h \<notin> fst ` set row" using Cons.prems by auto
  then have upd: "obj_set row h v = row @ [(h, v)]" for v
    using Cons.prems(1) by (auto simp: obj_set_def update_fresh)
  have nxt: "(if j < length cols then cols ! j else [])
             = (if drop j cols = [] then [] else hd (drop j cols))"
    by (simp add: hd_drop_conv_nth)
  have "forEachHeader (h # hs) j cols row
        = forEachHeader hs (Suc j) cols (row @ [(h, if j < length cols then cols ! j else [])])"
    by (simp add: upd)
  also have "\<dots> = (row @ [(h, if j < length cols then cols ! j else [])]) @ zipRow hs (drop (Suc j) cols)"
    using Cons.prems by (intro Cons.IH) auto
  also have "\<dots> = row @ zipRow (h # hs) (drop j cols)"
    by (simp add: zipRow_Cons nxt drop_Suc tl_drop)
  finally show ?case .
qed

lemma forEachHeader_zipRow:
  "PROTO \<notin> set header \<Longrightarrow> distinct header \<Longrightarrow> forEachHeader header 0 cols [] = zipRow header cols"
  using forEachHeader_append [of header "[]" 0 cols] by simp

subsection \<open>Lines\<close>

lemma splitLinesFrom_LF: "splitLinesFrom cur (LF # t) = cur # splitLinesFrom [] t"
  by (cases t) simp_all

lemma CR_neq_LF [simp]: "CR \<noteq> LF" "BOM \<noteq> LF" "BOM \<noteq> CR"
  by (simp_all add: CR_def LF_def BOM_def)

lemma splitLinesFrom_CRLF: "splitLinesFrom cur (CR # LF # t) = cur # splitLinesFrom [] t"
  by simp

lemma splitLinesFrom_other:
  "c \<noteq> LF \<Longrightarrow> \<not> (c = CR \<and> take 1 t = [LF]) \<Longrightarrow>
   splitLinesFrom cur (c # t) = splitLinesFrom (cur @ [c]) t"
  by (cases t) auto

lemma splitLinesFrom_cur:
  "splitLinesFrom cur t = (cur @ hd (splitLinesFrom [] t)) # tl (splitLinesFrom [] t)"
proof (induction t arbitrary: cur rule: length_induct)
  case (1 t)
  show ?case
  proof (cases t)
    case Nil
    then show ?thesis by simp
  next
    case (Cons c t')
    have shorter: "length t' < length t" using Cons by simp
    have IH: "splitLinesFrom cur' t' = (cur' @ hd (splitLinesFrom [] t')) # tl (splitLinesFrom [] t')"
      for cur' by (rule 1 [rule_format, OF shorter])
    consider (lf) "c = LF" | (crlf) t'' where "c = CR" "t' = LF # t''"
      | (other) "c \<noteq> LF" "\<not> (c = CR \<and> take 1 t' = [LF])"
      by (cases t') auto
    then show ?thesis
    proof cases
      case lf
      then show ?thesis using Cons by (simp add: splitLinesFrom_LF)
    next
      case crlf
      then show ?thesis using Cons by simp
    next
      case other
      have "splitLinesFrom cur t = splitLinesFrom (cur @ [c]) t'"
        using other Cons by (simp add: splitLinesFrom_other)
      moreover have "splitLinesFrom [] t = splitLinesFrom [c] t'"
        using other Cons splitLinesFrom_other [of c t' "[]"] by simp
      ultimately show ?thesis
        using IH [of "cur @ [c]"] IH [of "[c]"] by simp
    qed
  qed
qed

lemma newline_neq_BOM [simp]: "LF \<noteq> BOM" "CR \<noteq> BOM" "LF \<noteq> CR"
  by (simp_all add: CR_def LF_def BOM_def)

lemma countLines_head:
  "cur \<noteq> [] \<Longrightarrow>
   countLines cur t = Suc (length (filter (\<lambda>l. length l > 0) (tl (splitLinesFrom [] t))))"
  unfolding countLines_def by (subst splitLinesFrom_cur) simp

lemma countLines_empty_le:
  "countLines [] t \<le> Suc (length (filter (\<lambda>l. length l > 0) (tl (splitLinesFrom [] t))))"
  by (cases "splitLinesFrom [] t") (simp_all add: countLines_def)

lemma countLines_mono: "cur' \<noteq> [] \<Longrightarrow> countLines cur t \<le> countLines cur' t"
  using countLines_head [of cur t] countLines_head [of cur' t] countLines_empty_le [of t]
  by (cases "cur = []") simp_all

lemma countLines_LF: "countLines cur (LF # t) = (if cur = [] then 0 else 1) + countLines [] t"
  by (simp add: countLines_def splitLinesFrom_LF)

lemma countLines_CRLF:
  "countLines cur (CR # LF # t) = (if cur = [] then 0 else 1) + countLines [] t"
  by (simp add: countLines_def)

lemma countLines_other:
  "c \<noteq> LF \<Longrightarrow> \<not> (c = CR \<and> take 1 t = [LF]) \<Longrightarrow>
   countLines cur (c # t) = countLines (cur @ [c]) t"
  by (simp add: countLines_def splitLinesFrom_other)

lemma countLines_replaceFirst:
  "countLines cur (replaceFirst BOM t) \<le> countLines cur t"
proof (induction t arbitrary: cur rule: length_induct)
  case (1 t)
  show ?case
  proof (cases t)
    case Nil
    then show ?thesis by simp
  next
    case (Cons c t')
    have IH: "countLines cur' (replaceFirst BOM u) \<le> countLines cur' u"
      if "length u \<le> length t'" for cur' u
    proof -
      have "length u < length t" using that Cons by simp
      then show ?thesis by (rule 1 [rule_format])
    qed
    show ?thesis
    proof (cases "c = BOM")
      case True
      have "countLines cur t = countLines (cur @ [BOM]) t'"
        using True Cons by (simp add: countLines_other)
      then show ?thesis using True Cons countLines_mono [of "cur @ [BOM]" cur t'] by simp
    next
      case notbom: False
      then have rf: "replaceFirst BOM t = c # replaceFirst BOM t'" using Cons by simp
      consider (lf) "c = LF" | (crlf) t'' where "c = CR" "t' = LF # t''"
        | (crbomlf) t'' where "c = CR" "t' = BOM # LF # t''"
        | (other) "c \<noteq> LF" "\<not> (c = CR \<and> take 1 t' = [LF])"
            "\<not> (c = CR \<and> take 1 (replaceFirst BOM t') = [LF])"
      proof (cases "c = LF")
        case True
        then show ?thesis using lf by simp
      next
        case nlf: False
        show ?thesis
        proof (cases "c = CR")
          case False
          then show ?thesis using other nlf by simp
        next
          case cr: True
          show ?thesis
          proof (cases t')
            case Nil
            then show ?thesis using other nlf by simp
          next
            case (Cons d t'')
            show ?thesis
            proof (cases "d = LF")
              case True
              then show ?thesis using crlf cr Cons by simp
            next
              case dnlf: False
              show ?thesis
              proof (cases "d = BOM \<and> take 1 t'' = [LF]")
                case True
                then obtain t3 where "t'' = LF # t3" by (cases t'') auto
                then show ?thesis using crbomlf cr Cons True by simp
              next
                case False
                then show ?thesis using other nlf cr Cons dnlf by auto
              qed
            qed
          qed
        qed
      qed
      then show ?thesis
      proof cases
        case lf
        then show ?thesis using rf Cons IH [of t' "[]"] by (simp add: countLines_LF)
      next
        case crlf
        then show ?thesis using Cons IH [of t'' "[]"] by (simp add: countLines_CRLF)
      next
        case crbomlf
        have "countLines cur t = countLines (cur @ [CR, BOM]) (LF # t'')"
          using crbomlf Cons by (simp add: countLines_other)
        then show ?thesis using crbomlf Cons by (simp add: countLines_CRLF countLines_LF)
      next
        case other
        have "countLines cur (replaceFirst BOM t) = countLines (cur @ [c]) (replaceFirst BOM t')"
          using other rf by (simp add: countLines_other)
        moreover have "countLines cur t = countLines (cur @ [c]) t'"
          using other Cons by (simp add: countLines_other)
        ultimately show ?thesis using IH [of t' "cur @ [c]"] by simp
      qed
    qed
  qed
qed

lemma csvLines_le_nonEmptyLines: "length (csvLines text) \<le> length (nonEmptyLines text)"
  using countLines_replaceFirst [of "[]" "text"]
  by (simp add: csvLines_def nonEmptyLines_def splitLines_def countLines_def)

lemma splitLinesFrom_newlines: "splitLinesFrom [] (replicate n LF) = replicate (Suc n) []"
  by (induction n) (simp_all add: splitLinesFrom_LF)

lemma replaceFirst_absent: "c \<notin> set t \<Longrightarrow> replaceFirst c t = t"
  by (induction t) auto

lemma csvLines_newlines: "csvLines (replicate n LF) = []"
  by (simp add: csvLines_def splitLines_def replaceFirst_absent splitLinesFrom_newlines)

subsection \<open>Records\<close>

lemma map_of_obj_set:
  "map_of (obj_set obj k v) = (if k = PROTO then map_of obj else (map_of obj)(k \<mapsto> v))"
  by (simp add: obj_set_def update_conv')

lemma forEachHeader_map_of:
  "map_of (forEachHeader hs j cols row) k =
     (if k = PROTO then map_of row k
      else (map_of row ++ map_of (rev (zipRow hs (drop j cols)))) k)"
proof (induction hs arbitrary: j row)
  case Nil
  then show ?case by (simp add: zipRow_def)
next
  case (Cons h hs)
  have nxt: "(if j < length cols then cols ! j else [])
             = (if drop j cols = [] then [] else hd (drop j cols))"
    by (simp add: hd_drop_conv_nth)
  show ?case
    by (simp add: Cons.IH zipRow_Cons nxt drop_Suc tl_drop map_of_obj_set map_add_def
        del: drop_eq_Nil drop_eq_Nil2 split: option.splits)
qed

lemma zipRow_nth:
  "j < length header \<Longrightarrow>
   zipRow header cols ! j = (header ! j, if j < length cols then cols ! j else [])"
  by (simp add: zipRow_def nth_append)

lemmas csv_eval =
  parseCsv_def csvLines_def splitLines_def splitCsvLine_def obj_set_def PROTO_def
  LF_def CR_def BOM_def QUOTE_def COMMA_def Let_def

text \<open>
  C7. \<open>parseCsv\<close> is a total function: it gives a list of records for every text and has
  no failing branch. For every data line it builds the record by assigning the fields
  to the header columns by position, a missing field being the empty string and a field
  beyond the header being dropped: with header \<^verbatim>\<open>a,b,c\<close> the row \<^verbatim>\<open>x,y\<close> yields
  \<^verbatim>\<open>{a:"x", b:"y", c:""}\<close> and the row \<^verbatim>\<open>x,y,z,w\<close> yields \<^verbatim>\<open>{a:"x", b:"y", c:"z"}\<close>.
  When the header names are distinct (and none is \<^verbatim>\<open>__proto__\<close>) the record has
  exactly the pairs of the positional zip; in general a later column of the same name
  overwrites an earlier one.
\<close>

theorem parseCsv_zip:
  "parseCsv (js ''a,b,c'' @ [LF] @ js ''x,y'')
     = [[(js ''a'', js ''x''), (js ''b'', js ''y''), (js ''c'', [])]]
   \<and> parseCsv (js ''a,b,c'' @ [LF] @ js ''x,y,z,w'')
     = [[(js ''a'', js ''x''), (js ''b'', js ''y''), (js ''c'', js ''z'')]]
   \<and> parseCsv text =
       (case csvLines text of
          [] \<Rightarrow> []
        | h # ls \<Rightarrow> map (\<lambda>l. forEachHeader (splitCsvLine h) 0 (splitCsvLine l) [])
                        (filter (\<lambda>l. splitCsvLine l \<noteq> [[]]) ls))
   \<and> (PROTO \<notin> set header \<and> distinct header \<longrightarrow>
        forEachHeader header 0 cols [] = zipRow header cols)
   \<and> map_of (forEachHeader header 0 cols []) k
       = (if k = PROTO then None else map_of (rev (zipRow header cols)) k)
   \<and> length (zipRow header cols) = length header
   \<and> (\<forall>j<length header.
         zipRow header cols ! j = (header ! j, if j < length cols then cols ! j else []))"
proof -
  have short: "parseCsv (js ''a,b,c'' @ [LF] @ js ''x,y'')
     = [[(js ''a'', js ''x''), (js ''b'', js ''y''), (js ''c'', [])]]"
    by (simp add: csv_eval)
  have long: "parseCsv (js ''a,b,c'' @ [LF] @ js ''x,y,z,w'')
     = [[(js ''a'', js ''x''), (js ''b'', js ''y''), (js ''c'', js ''z'')]]"
    by (simp add: csv_eval)
  have look: "map_of (forEachHeader header 0 cols []) k
       = (if k = PROTO then None else map_of (rev (zipRow header cols)) k)"
    using forEachHeader_map_of [of header 0 cols "[]" k] by simp
  have len: "length (zipRow header cols) = length header"
    by (simp add: zipRow_def)
  show ?thesis
    apply (intro conjI impI allI)
    subgoal by (rule short)
    subgoal by (rule long)
    subgoal by (rule parseCsv_eq)
    subgoal by (simp add: forEachHeader_zipRow)
    subgoal by (rule look)
    subgoal by (rule len)
    subgoal by (rule zipRow_nth)
    done
qed

theorem parseCsv_zip_witness:
  "forEachHeader [js ''a'', js ''b'', js ''c''] 0 [js ''x'', js ''y''] []
     = zipRow [js ''a'', js ''b'', js ''c''] [js ''x'', js ''y'']
   \<and> zipRow [js ''a'', js ''b'', js ''c''] [js ''x'', js ''y'']
     = [(js ''a'', js ''x''), (js ''b'', js ''y''), (js ''c'', [])]
   \<and> zipRow [js ''a'', js ''b'', js ''c''] [js ''x'', js ''y'', js ''z'', js ''w''] ! 2
     = (js ''c'', js ''z'')"
proof -
  have hyp: "PROTO \<notin> set [js ''a'', js ''b'', js ''c''] \<and> distinct [js ''a'', js ''b'', js ''c'']"
    by (simp add: PROTO_def)
  have idx: "2 < length [js ''a'', js ''b'', js ''c'']" by simp
  have row: "zipRow [js ''a'', js ''b'', js ''c''] [js ''x'', js ''y'']
     = [(js ''a'', js ''x''), (js ''b'', js ''y''), (js ''c'', [])]"
    by (simp add: zipRow_def)
  have third: "zipRow [js ''a'', js ''b'', js ''c''] [js ''x'', js ''y'', js ''z'', js ''w''] ! 2
     = (js ''c'', js ''z'')"
    using parseCsv_zip [of "[]" "[js ''a'', js ''b'', js ''c'']"
        "[js ''x'', js ''y'', js ''z'', js ''w'']" "[]"] idx
    by simp
  show ?thesis
    using parseCsv_zip [of "[]" "[js ''a'', js ''b'', js ''c'']" "[js ''x'', js ''y'']" "[]"]
      hyp row third
    by simp
qed

text \<open>
  C8 says that a text not beginning with U+FEFF is split unchanged, so that a later
  U+FEFF stays in the field values. The parser run on the text \<^verbatim>\<open>a\<close>, line feed,
  \<^verbatim>\<open>x\<close>, U+FEFF, \<^verbatim>\<open>y\<close>: the text does not begin with U+FEFF, the character is removed
  all the same, and the record is \<^verbatim>\<open>{a:"xy"}\<close>.
\<close>

theorem parseCsv_removes_later_bom:
  "hd (js ''a'' @ [LF] @ js ''x'' @ [BOM] @ js ''y'') \<noteq> BOM
   \<and> replaceFirst BOM (js ''a'' @ [LF] @ js ''x'' @ [BOM] @ js ''y'')
       = js ''a'' @ [LF] @ js ''xy''
   \<and> parseCsv (js ''a'' @ [LF] @ js ''x'' @ [BOM] @ js ''y'') = [[(js ''a'', js ''xy'')]]
   \<and> parseCsv (js ''a'' @ [LF] @ js ''x'' @ [BOM] @ js ''y'')
       \<noteq> [[(js ''a'', js ''x'' @ [BOM] @ js ''y'')]]"
  by (simp add: csv_eval)

text \<open>
  C10. \<open>parseCsv\<close> yields at most one record per non-empty line after the header, both
  for the lines it works on and for the non-empty lines of the text as given (removing
  the first U+FEFF never adds a non-empty line). It yields no record when the text has
  at most one non-empty line: the empty text, a text of line feeds only, a header with
  no data line. A data line that splits into exactly one empty field, such as a line
  of one quote or of two quotes, is skipped.
\<close>

theorem parseCsv_row_count:
  "length (parseCsv text) \<le> length (csvLines text) - 1
   \<and> length (csvLines text) \<le> length (nonEmptyLines text)
   \<and> (length (nonEmptyLines text) \<le> 1 \<longrightarrow> parseCsv text = [])
   \<and> parseCsv [] = []
   \<and> parseCsv (replicate n LF) = []
   \<and> (splitCsvLine l = [[]] \<longrightarrow> parseRows header (l # ls) out = parseRows header ls out)
   \<and> splitCsvLine [QUOTE] = [[]]
   \<and> splitCsvLine [QUOTE, QUOTE] = [[]]
   \<and> parseCsv (js ''a'' @ [LF, QUOTE, LF, QUOTE, QUOTE, LF] @ js ''x'')
       = [[(js ''a'', js ''x'')]]"
proof -
  have count: "length (parseCsv text) \<le> length (csvLines text) - 1"
  proof (cases "csvLines text")
    case Nil
    then show ?thesis by (simp add: parseCsv_eq)
  next
    case (Cons h ls)
    have "length (filter (\<lambda>l. splitCsvLine l \<noteq> [[]]) ls) \<le> length ls"
      by (rule length_filter_le)
    then show ?thesis using Cons by (simp add: parseCsv_eq)
  qed
  have few: "parseCsv text = []" if "length (nonEmptyLines text) \<le> 1"
  proof -
    have "length (csvLines text) \<le> 1"
      using that csvLines_le_nonEmptyLines [of "text"] by simp
    then have "length (parseCsv text) = 0" using count by simp
    then show ?thesis by simp
  qed
  have newlines: "parseCsv (replicate n LF) = []"
    by (simp add: parseCsv_eq csvLines_newlines)
  have sample: "parseCsv (js ''a'' @ [LF, QUOTE, LF, QUOTE, QUOTE, LF] @ js ''x'')
       = [[(js ''a'', js ''x'')]]"
    by (simp add: csv_eval)
  show ?thesis
    apply (intro conjI impI)
    subgoal by (rule count)
    subgoal by (rule csvLines_le_nonEmptyLines)
    subgoal by (rule few)
    subgoal by (simp add: csv_eval)
    subgoal by (rule newlines)
    subgoal by simp
    subgoal by (simp add: splitCsvLine_def)
    subgoal by (simp add: splitCsvLine_def)
    subgoal by (rule sample)
    done
qed

theorem parseCsv_row_count_witness:
  "length (nonEmptyLines (js ''a,b'' @ [CR, LF, LF])) \<le> 1
   \<and> parseCsv (js ''a,b'' @ [CR, LF, LF]) = []
   \<and> splitCsvLine [QUOTE] = [[]]
   \<and> parseRows [js ''a''] [[QUOTE], js ''x''] [] = parseRows [js ''a''] [js ''x''] []"
proof -
  have one: "length (nonEmptyLines (js ''a,b'' @ [CR, LF, LF])) \<le> 1"
    by (simp add: nonEmptyLines_def splitLines_def CR_def LF_def)
  have q: "splitCsvLine [QUOTE] = [[]]" by (simp add: splitCsvLine_def)
  show ?thesis
    using parseCsv_row_count [of "js ''a,b'' @ [CR, LF, LF]" 0 "[QUOTE]" "[js ''a'']" "[js ''x'']" "[]"]
      one q
    by simp
qed

section \<open>Properties of the archive reader\<close>

subsection \<open>Locating the end-of-central-directory record\<close>

lemma andThen_Inl [simp]: "andThen (Inl e) f = Inl e"
  by (simp add: andThen_def)

lemma andThen_Inr [simp]: "andThen (Inr v) f = f v"
  by (simp add: andThen_def)

lemma read_into_zeros:
  "take len (drop pos file) @ drop (length (take len (drop pos file))) (replicate len 0)
     = fileBytes file pos len"
proof (rule nth_equalityI)
  show "length (take len (drop pos file)
          @ drop (length (take len (drop pos file))) (replicate len 0))
        = length (fileBytes file pos len)"
    by (simp add: fileBytes_def)
next
  fix k
  assume "k < length (take len (drop pos file)
                @ drop (length (take len (drop pos file))) (replicate len 0))"
  then have k: "k < len" by simp
  show "(take len (drop pos file)
           @ drop (length (take len (drop pos file))) (replicate len 0)) ! k
        = fileBytes file pos len ! k"
    using k by (auto simp: fileBytes_def nth_append)
qed

lemma readSync_alloc_limit:
  "len < 2 ^ 32 \<Longrightarrow>
   readSync file (Buffer_alloc len) len pos =
     (if 2 ^ 31 \<le> len then Inl RangeError else Inr (fileBytes file pos len))"
  using read_into_zeros [of len pos "file"]
  by (simp add: readSync_def Buffer_alloc_def Let_def)

lemma readSync_alloc:
  "len < 2 ^ 31 \<Longrightarrow> readSync file (Buffer_alloc len) len pos = Inr (fileBytes file pos len)"
  using readSync_alloc_limit [of len "file" pos] by simp

lemma fileBytes_inside: "pos + len \<le> length file \<Longrightarrow> fileBytes file pos len = take len (drop pos file)"
  by (rule nth_equalityI) (auto simp: fileBytes_def)

lemma readSync_tail:
  "readSync file (Buffer_alloc (min (length file) 65557)) (min (length file) 65557)
     (length file - min (length file) 65557) = Inr (tailOf file)"
proof -
  have small: "min (length file) 65557 < (2::nat) ^ 31" by simp
  have "fileBytes file (length file - min (length file) 65557) (min (length file) 65557)
        = tailOf file"
    by (simp add: fileBytes_inside tailOf_def)
  then show ?thesis using readSync_alloc [OF small] by simp
qed

lemma length_tailOf [simp]: "length (tailOf file) = min (length file) 65557"
  by (simp add: tailOf_def)

declare scanEocd.simps [simp del]

declare walkCentral.simps [simp del]

lemma scanEocd_neg: "i < 0 \<Longrightarrow> scanEocd fsize readTail tail i = Inr (- 1)"
  by (subst scanEocd.simps) simp

lemma scanEocd_hit:
  "n + 4 \<le> length tail \<Longrightarrow> le32 tail n = EOCD_SIG \<Longrightarrow>
   scanEocd fsize readTail tail (int n) = Inr (int fsize - int readTail + int n)"
  by (subst scanEocd.simps) (simp add: readUInt32LE_def)

lemma scanEocd_miss:
  "n + 4 \<le> length tail \<Longrightarrow> le32 tail n \<noteq> EOCD_SIG \<Longrightarrow>
   scanEocd fsize readTail tail (int n) = scanEocd fsize readTail tail (int n - 1)"
  by (subst scanEocd.simps) (simp add: readUInt32LE_def)

lemma scanEocd_none:
  "n + 4 \<le> length tail \<Longrightarrow> \<forall>k\<le>n. le32 tail k \<noteq> EOCD_SIG \<Longrightarrow>
   scanEocd fsize readTail tail (int n) = Inr (- 1)"
proof (induction n)
  case 0
  then show ?case by (simp add: scanEocd_miss [of 0, simplified] scanEocd_neg)
next
  case (Suc n)
  have "scanEocd fsize readTail tail (int (Suc n)) = scanEocd fsize readTail tail (int (Suc n) - 1)"
    using Suc.prems by (intro scanEocd_miss) auto
  also have "int (Suc n) - 1 = int n" by simp
  finally show ?case using Suc by simp
qed

lemma scanEocd_last:
  "n + 4 \<le> length tail \<Longrightarrow> j \<le> n \<Longrightarrow> le32 tail j = EOCD_SIG \<Longrightarrow>
   \<forall>k. j < k \<and> k \<le> n \<longrightarrow> le32 tail k \<noteq> EOCD_SIG \<Longrightarrow>
   scanEocd fsize readTail tail (int n) = Inr (int fsize - int readTail + int j)"
proof (induction n)
  case 0
  then show ?case by (simp add: scanEocd_hit [of 0, simplified])
next
  case (Suc n)
  show ?case
  proof (cases "j = Suc n")
    case True
    then show ?thesis
      using Suc.prems scanEocd_hit [of "Suc n" tail fsize readTail] by simp
  next
    case False
    then have jn: "j \<le> n" using Suc.prems by simp
    have miss: "le32 tail (Suc n) \<noteq> EOCD_SIG" using Suc.prems False by auto
    have "scanEocd fsize readTail tail (int (Suc n)) = scanEocd fsize readTail tail (int (Suc n) - 1)"
      using Suc.prems miss by (intro scanEocd_miss) auto
    also have "int (Suc n) - 1 = int n" by simp
    finally show ?thesis using Suc.IH jn Suc.prems by simp
  qed
qed


lemma eocdAt_bound: "eocdAt tail i \<Longrightarrow> i \<le> length tail"
  by (simp add: eocdAt_def)

lemma eocdAt_last_ex:
  assumes "eocdAt tail i"
  shows "\<exists>j. eocdAt tail j \<and> (\<forall>k>j. \<not> eocdAt tail k)"
proof -
  have bound: "\<forall>y. eocdAt tail y \<longrightarrow> y \<le> length tail"
    by (simp add: eocdAt_bound)
  have "eocdAt tail (Greatest (eocdAt tail))"
    using assms by (rule GreatestI_nat [where b = "length tail"]) (simp add: eocdAt_bound)
  moreover have "k \<le> Greatest (eocdAt tail)" if "eocdAt tail k" for k
    using that by (rule Greatest_le_nat [where b = "length tail"]) (simp add: eocdAt_bound)
  then have "\<forall>k > Greatest (eocdAt tail). \<not> eocdAt tail k"
    by (meson not_le)
  ultimately show ?thesis by blast
qed

lemma findEocd_unfold:
  "findEocd file =
     andThen (scanEocd (length file) (min (length file) 65557) (tailOf file)
                (int (min (length file) 65557) - 22))
       (\<lambda>eocdOffset. if eocdOffset < 0 then Inl EocdNotFound else Inr (nat eocdOffset))"
  using readSync_tail [of "file"] by (simp add: findEocd_def Let_def)

lemma findEocd_none:
  assumes "\<forall>i. \<not> eocdAt (tailOf file) i"
  shows "findEocd file = Inl EocdNotFound"
proof (cases "min (length file) 65557 < 22")
  case True
  then show ?thesis by (simp add: findEocd_unfold scanEocd_neg)
next
  case False
  define n where "n = min (length file) 65557 - 22"
  have n: "int (min (length file) 65557) - 22 = int n" "n + 22 = length (tailOf file)"
    using False by (simp_all add: n_def)
  have "\<forall>k\<le>n. le32 (tailOf file) k \<noteq> EOCD_SIG"
    using assms n(2) by (auto simp: eocdAt_def)
  then have "scanEocd (length file) (min (length file) 65557) (tailOf file) (int n) = Inr (- 1)"
    using n(2) by (intro scanEocd_none) auto
  then show ?thesis by (simp add: findEocd_unfold n(1))
qed

lemma findEocd_some:
  assumes "eocdAt (tailOf file) j" and "\<forall>k>j. \<not> eocdAt (tailOf file) k"
  shows "findEocd file = Inr (length file - length (tailOf file) + j)"
proof -
  define n where "n = min (length file) 65557 - 22"
  have j: "j + 22 \<le> length (tailOf file)" "le32 (tailOf file) j = EOCD_SIG"
    using assms(1) by (simp_all add: eocdAt_def)
  have n: "int (min (length file) 65557) - 22 = int n" "n + 22 = length (tailOf file)"
    using j(1) by (simp_all add: n_def)
  have "\<forall>k. j < k \<and> k \<le> n \<longrightarrow> le32 (tailOf file) k \<noteq> EOCD_SIG"
    using assms(2) n(2) by (auto simp: eocdAt_def)
  then have "scanEocd (length file) (min (length file) 65557) (tailOf file) (int n)
             = Inr (int (length file) - int (min (length file) 65557) + int j)"
    using n(2) j by (intro scanEocd_last) auto
  then show ?thesis
    by (simp add: findEocd_unfold n(1)) (simp add: nat_diff_distrib' nat_add_distrib)
qed

lemma findEocd_cases:
  obtains (none) "findEocd file = Inl EocdNotFound" "\<forall>i. \<not> eocdAt (tailOf file) i"
  | (some) j where "eocdAt (tailOf file) j" "\<forall>k>j. \<not> eocdAt (tailOf file) k"
      "findEocd file = Inr (length file - length (tailOf file) + j)"
proof (cases "\<exists>i. eocdAt (tailOf file) i")
  case True
  then obtain j where j: "eocdAt (tailOf file) j" "\<forall>k>j. \<not> eocdAt (tailOf file) k"
    using eocdAt_last_ex by blast
  show ?thesis using j findEocd_some [OF j] by (rule some)
next
  case False
  then have "\<forall>i. \<not> eocdAt (tailOf file) i" by simp
  then show ?thesis using findEocd_none none by blast
qed

lemma fileU32_inside: "pos + 4 \<le> length file \<Longrightarrow> fileU32 file pos = le32 file pos"
  by (simp add: fileU32_def le32_def fileBytes_def)

lemma fileU16_inside: "pos + 2 \<le> length file \<Longrightarrow> fileU16 file pos = le16 file pos"
  by (simp add: fileU16_def le16_def fileBytes_def)

lemma fileReadUInt32LE_eq: "fileReadUInt32LE file pos = Inr (fileU32 file pos)"
proof -
  have "readSync file (Buffer_alloc 4) 4 pos = Inr (fileBytes file pos 4)"
    by (rule readSync_alloc) simp
  then show ?thesis
    by (simp add: fileReadUInt32LE_def readUInt32LE_def fileU32_def fileBytes_def)
qed

lemma unat_byte: "unat (x :: byte) < 256"
  using unsigned_less [of x, where 'a = nat] by simp

lemma le32_bound: "le32 b i < 2 ^ 32"
  using unat_byte [of "b ! i"] unat_byte [of "b ! (i + 1)"]
    unat_byte [of "b ! (i + 2)"] unat_byte [of "b ! (i + 3)"]
  by (simp add: le32_def)

lemma fileU32_bound: "fileU32 file pos < 2 ^ 32"
  unfolding fileU32_def by (rule le32_bound)

lemma readEocd_eq:
  "readEocd file =
     andThen (findEocd file) (\<lambda>off.
       Inr (fileU32 file (off + 12), fileU32 file (off + 16)))"
  by (simp add: readEocd_def fileReadUInt32LE_eq)

lemma readCentralDirectory_eq:
  "readCentralDirectory file =
     andThen (findEocd file) (\<lambda>off.
       if 2 ^ 31 \<le> fileU32 file (off + 12) then Inl RangeError
       else Inr (fileBytes file (fileU32 file (off + 16)) (fileU32 file (off + 12))))"
proof (cases "findEocd file")
  case (Inl e)
  then show ?thesis by (simp add: readCentralDirectory_def readEocd_eq)
next
  case (Inr off)
  have bound: "fileU32 file (off + 12) < 2 ^ 32" by (rule fileU32_bound)
  show ?thesis
    using Inr readSync_alloc_limit [OF bound, of "file" "fileU32 file (off + 16)"]
    by (simp add: readCentralDirectory_def readEocd_eq)
qed

lemma findEocd_inside: "findEocd file = Inr off \<Longrightarrow> off + 22 \<le> length file"
  by (cases "file" rule: findEocd_cases) (auto simp: eocdAt_def min_def split: if_splits)

lemma readEocd_found:
  "findEocd file = Inr off \<Longrightarrow>
   readEocd file = Inr (le32 file (off + 12), le32 file (off + 16))"
  using findEocd_inside [of "file" off]
  by (simp add: readEocd_eq fileU32_inside)

lemma readCentralDirectory_found:
  "findEocd file = Inr off \<Longrightarrow>
   readCentralDirectory file =
     (if le32 file (off + 12) < 2 ^ 31
      then Inr (fileBytes file (le32 file (off + 16)) (le32 file (off + 12)))
      else Inl RangeError)"
  using findEocd_inside [of "file" off]
  by (simp add: readCentralDirectory_eq fileU32_inside not_le)

text \<open>
  C1. The reader looks at the last \<open>min (length file) 65557\<close> bytes of the archive
  only. Scanning down from the highest index that leaves room for the 22 fixed bytes,
  it takes the first index whose four little-endian bytes are \<open>0x06054b50\<close>, that is
  the greatest such index of the tail; the size and the offset of the central directory
  are the 32-bit values 12 and 16 bytes after that position. When no index of the tail
  matches, as for every file shorter than 22 bytes, the call fails with \<open>EocdNotFound\<close>
  and returns no mapping. The scan raises no other error. The central directory is then
  fetched with the size read, unless that size is \<open>2 ^ 31\<close> or more, which the read
  refuses.
\<close>

theorem findEocd_tail_scan:
  "length (tailOf file) = min (length file) 65557
   \<and> (findEocd file = Inl EocdNotFound \<longleftrightarrow> (\<forall>i. \<not> eocdAt (tailOf file) i))
   \<and> (findEocd file = Inr off \<longleftrightarrow>
        (\<exists>j. eocdAt (tailOf file) j \<and> (\<forall>k>j. \<not> eocdAt (tailOf file) k)
             \<and> off = length file - length (tailOf file) + j))
   \<and> (findEocd file = Inr off \<longrightarrow>
        readEocd file = Inr (le32 file (off + 12), le32 file (off + 16))
        \<and> readCentralDirectory file
            = (if le32 file (off + 12) < 2 ^ 31
               then Inr (fileBytes file (le32 file (off + 16)) (le32 file (off + 12)))
               else Inl RangeError))
   \<and> (length file < 22 \<longrightarrow> findEocd file = Inl EocdNotFound)
   \<and> (findEocd file = Inl EocdNotFound \<longrightarrow>
        readFromZipBody rt file wantNames = Inl EocdNotFound
        \<and> (map_of (files s) zipFile = Some file \<longrightarrow>
             fst (readFromZip rt s zipFile wantNames) = Inl EocdNotFound))"
proof -
  have A: "findEocd file = Inl EocdNotFound \<longleftrightarrow> (\<forall>i. \<not> eocdAt (tailOf file) i)"
  proof
    assume "findEocd file = Inl EocdNotFound"
    then show "\<forall>i. \<not> eocdAt (tailOf file) i"
      by (cases "file" rule: findEocd_cases) simp_all
  next
    assume "\<forall>i. \<not> eocdAt (tailOf file) i"
    then show "findEocd file = Inl EocdNotFound" by (rule findEocd_none)
  qed
  have B: "findEocd file = Inr off \<longleftrightarrow>
        (\<exists>j. eocdAt (tailOf file) j \<and> (\<forall>k>j. \<not> eocdAt (tailOf file) k)
             \<and> off = length file - length (tailOf file) + j)"
  proof
    assume "findEocd file = Inr off"
    then show "\<exists>j. eocdAt (tailOf file) j \<and> (\<forall>k>j. \<not> eocdAt (tailOf file) k)
             \<and> off = length file - length (tailOf file) + j"
      by (cases "file" rule: findEocd_cases) auto
  next
    assume "\<exists>j. eocdAt (tailOf file) j \<and> (\<forall>k>j. \<not> eocdAt (tailOf file) k)
             \<and> off = length file - length (tailOf file) + j"
    then obtain j where "eocdAt (tailOf file) j" "\<forall>k>j. \<not> eocdAt (tailOf file) k"
      "off = length file - length (tailOf file) + j" by blast
    then show "findEocd file = Inr off" using findEocd_some by simp
  qed
  have D: "findEocd file = Inl EocdNotFound" if "length file < 22"
    using that by (intro findEocd_none) (simp add: eocdAt_def)
  have E: "readFromZipBody rt file wantNames = Inl EocdNotFound"
    if "findEocd file = Inl EocdNotFound"
    using that by (simp add: readFromZipBody_def centralEntries_def readCentralDirectory_eq)
  have F: "fst (readFromZip rt s zipFile wantNames) = Inl EocdNotFound"
    if "findEocd file = Inl EocdNotFound" "map_of (files s) zipFile = Some file"
    using that E by (simp add: readFromZip_def openSync_def Let_def)
  show ?thesis
    apply (intro conjI impI)
    subgoal by (rule length_tailOf)
    subgoal by (rule A)
    subgoal by (rule B)
    subgoal by (rule readEocd_found)
    subgoal by (rule readCentralDirectory_found)
    subgoal by (rule D)
    subgoal by (rule E)
    subgoal by (rule F)
    done
qed

lemma calendarZip_eocd: "findEocd calendarZip = Inr 123"
  by (simp add: findEocd_def calendarZip_def readSync_def Buffer_alloc_def
      readUInt32LE_def le32_def EOCD_SIG_def scanEocd.simps)

lemma hugeCdZip_eocd: "findEocd hugeCdZip = Inr 0"
  by (simp add: findEocd_def hugeCdZip_def readSync_def Buffer_alloc_def
      readUInt32LE_def le32_def EOCD_SIG_def scanEocd.simps)

theorem findEocd_tail_scan_witness:
  "findEocd calendarZip = Inr 123
   \<and> readEocd calendarZip = Inr (58, 65)
   \<and> readCentralDirectory calendarZip = Inr (fileBytes calendarZip 65 58)
   \<and> findEocd hugeCdZip = Inr 0
   \<and> readEocd hugeCdZip = Inr (2147483648, 0)
   \<and> readCentralDirectory hugeCdZip = Inl RangeError
   \<and> readFromZipBody asciiRuntime (take 10 calendarZip) [js ''calendar.txt''] = Inl EocdNotFound
   \<and> fst (readFromZip asciiRuntime (diskWith (take 10 calendarZip)) (js ''gtfs.zip'')
            [js ''calendar.txt'']) = Inl EocdNotFound"
proof -
  have len: "length (take 10 calendarZip) < 22" by simp
  have cd: "le32 calendarZip (123 + 16) = 65" "le32 calendarZip (123 + 12) = 58"
    by (simp_all add: le32_def calendarZip_def)
  have huge: "le32 hugeCdZip (0 + 16) = 0" "le32 hugeCdZip (0 + 12) = 2147483648"
    by (simp_all add: le32_def hugeCdZip_def)
  have disk: "map_of (files (diskWith (take 10 calendarZip))) (js ''gtfs.zip'')
              = Some (take 10 calendarZip)"
    by (simp add: diskWith_def)
  show ?thesis
    using findEocd_tail_scan [of calendarZip 123 asciiRuntime "[js ''calendar.txt'']"]
      findEocd_tail_scan [of hugeCdZip 0 asciiRuntime "[js ''calendar.txt'']"]
      findEocd_tail_scan [of "take 10 calendarZip" 0 asciiRuntime "[js ''calendar.txt'']"
        "diskWith (take 10 calendarZip)" "js ''gtfs.zip''"]
      len calendarZip_eocd hugeCdZip_eocd cd huge disk by simp
qed

subsection \<open>Reading the data of an entry\<close>

lemma le32_fileBytes: "i + 4 \<le> len \<Longrightarrow> le32 (fileBytes file pos len) i = fileU32 file (pos + i)"
  by (simp add: le32_def fileU32_def fileBytes_def add.assoc)

lemma le16_fileBytes: "i + 2 \<le> len \<Longrightarrow> le16 (fileBytes file pos len) i = fileU16 file (pos + i)"
  by (simp add: le16_def fileU16_def fileBytes_def add.assoc)

lemma length_fileBytes [simp]: "length (fileBytes file pos len) = len"
  by (simp add: fileBytes_def)

lemma readEntryData_eq:
  "readEntryData file e =
     (if fileU32 file (localHdrOff e) \<noteq> LOCAL_SIG then Inl LocalHeaderBroken
      else readSync file (Buffer_alloc (compSize e)) (compSize e)
             (localHdrOff e + 30 + fileU16 file (localHdrOff e + 26)
                + fileU16 file (localHdrOff e + 28)))"
proof -
  have header: "readSync file (Buffer_alloc 30) 30 (localHdrOff e)
                = Inr (fileBytes file (localHdrOff e) 30)"
    by (rule readSync_alloc) simp
  show ?thesis
    using le32_fileBytes [of 0 30 "file" "localHdrOff e"]
      le16_fileBytes [of 26 30 "file" "localHdrOff e"]
      le16_fileBytes [of 28 30 "file" "localHdrOff e"]
    by (simp add: readEntryData_def header readUInt32LE_def readUInt16LE_def Let_def)
qed

lemmas eval_defs =
  findEocd_def readEocd_def readCentralDirectory_def centralEntries_def readFromZipBody_def
  fileReadUInt32LE_def readSync_def Buffer_alloc_def readUInt32LE_def readUInt16LE_def
  le32_def le16_def EOCD_SIG_def CEN_SIG_def LOCAL_SIG_def scanEocd.simps walkCentral.simps
  pick_def basename_def SLASH_def asciiRuntime_def asciiLower_def
  readEntryData_def decompress_def extractEntryAsText_def obj_set_def PROTO_def


text \<open>
  C2, as amended. For an entry handed to the extraction, the reader reads the 30 bytes
  at the entry's local header offset and fails with the local-header error unless their
  first four bytes are \<open>0x04034b50\<close>. With the signature in place and a compressed size
  below \<open>2 ^ 31\<close>, the data of the member are the \<open>compSize\<close> bytes that start at the
  offset plus 30 plus the two 16-bit lengths found 26 and 28 bytes into the local header
  itself; the entry carries no lengths of the central directory. The buffer then has
  \<open>compSize\<close> bytes: inside the file they are the bytes of the file, and a position
  past the end of the file reads as zero. A compressed size from \<open>2 ^ 31\<close> up to
  \<open>2 ^ 32\<close> is refused by the read, and the extraction fails with that error.
\<close>

theorem readEntryData_local_header:
  "(fileU32 file (localHdrOff e) \<noteq> LOCAL_SIG \<longrightarrow>
      readEntryData file e = Inl LocalHeaderBroken
      \<and> extractEntryAsText rt file e = Inl LocalHeaderBroken)
   \<and> (fileU32 file (localHdrOff e) = LOCAL_SIG \<and> compSize e < 2 ^ 31 \<longrightarrow>
      readEntryData file e
        = Inr (fileBytes file
                 (localHdrOff e + 30 + fileU16 file (localHdrOff e + 26)
                    + fileU16 file (localHdrOff e + 28))
                 (compSize e)))
   \<and> (fileU32 file (localHdrOff e) = LOCAL_SIG \<and> 2 ^ 31 \<le> compSize e
        \<and> compSize e < 2 ^ 32 \<longrightarrow>
      readEntryData file e = Inl RangeError
      \<and> extractEntryAsText rt file e = Inl RangeError)
   \<and> length (fileBytes file pos len) = len
   \<and> (pos + len \<le> length file \<longrightarrow> fileBytes file pos len = take len (drop pos file))
   \<and> (pos + 4 \<le> length file \<longrightarrow> fileU32 file pos = le32 file pos)
   \<and> (pos + 2 \<le> length file \<longrightarrow> fileU16 file pos = le16 file pos)"
proof -
  have small: "readEntryData file e
        = Inr (fileBytes file
                 (localHdrOff e + 30 + fileU16 file (localHdrOff e + 26)
                    + fileU16 file (localHdrOff e + 28))
                 (compSize e))"
    if "fileU32 file (localHdrOff e) = LOCAL_SIG" "compSize e < 2 ^ 31"
    using that by (simp add: readEntryData_eq readSync_alloc)
  have large: "readEntryData file e = Inl RangeError"
    if "fileU32 file (localHdrOff e) = LOCAL_SIG" "2 ^ 31 \<le> compSize e" "compSize e < 2 ^ 32"
    using that by (simp add: readEntryData_eq readSync_alloc_limit)
  show ?thesis
    apply (intro conjI impI)
    subgoal by (simp add: readEntryData_eq)
    subgoal by (simp add: readEntryData_eq extractEntryAsText_def)
    subgoal by (simp add: small)
    subgoal by (simp add: large)
    subgoal by (simp add: large extractEntryAsText_def)
    subgoal by simp
    subgoal by (rule fileBytes_inside)
    subgoal by (rule fileU32_inside)
    subgoal by (rule fileU16_inside)
    done
qed

lemma calendarZip_length: "length calendarZip = 145"
  by (simp add: calendarZip_def)

lemma hugeSizeZip_sig: "fileU32 hugeSizeZip (localHdrOff hugeEntry) = LOCAL_SIG"
  by (simp add: hugeEntry_def fileU32_def fileBytes_def le32_def hugeSizeZip_def LOCAL_SIG_def)

theorem readEntryData_local_header_witness:
  "fileU32 calendarZip (localHdrOff calendarEntry) = LOCAL_SIG
   \<and> readEntryData calendarZip calendarEntry = Inr (take 23 (drop 42 calendarZip))
   \<and> take 23 (drop 42 calendarZip) =
       [0x73, 0x65, 0x72, 0x76, 0x69, 0x63, 0x65, 0x5F, 0x69, 0x64, 0x2C, 0x6D, 0x6F, 0x6E,
        0x64, 0x61, 0x79, 0x0A, 0x53, 0x31, 0x2C, 0x31, 0x0A]
   \<and> fileU32 method12BrokenZip (localHdrOff method12Entry) \<noteq> LOCAL_SIG
   \<and> readEntryData method12BrokenZip method12Entry = Inl LocalHeaderBroken
   \<and> extractEntryAsText asciiRuntime method12BrokenZip method12Entry = Inl LocalHeaderBroken
   \<and> fileU32 hugeSizeZip (localHdrOff hugeEntry) = LOCAL_SIG
   \<and> extractEntryAsText asciiRuntime hugeSizeZip hugeEntry = Inl RangeError"
proof -
  have sig: "fileU32 calendarZip (localHdrOff calendarEntry) = LOCAL_SIG"
    by (simp add: calendarEntry_def fileU32_inside calendarZip_length)
       (simp add: le32_def calendarZip_def LOCAL_SIG_def)
  have lens: "fileU16 calendarZip (localHdrOff calendarEntry + 26) = 12"
    "fileU16 calendarZip (localHdrOff calendarEntry + 28) = 0"
    by (simp_all add: calendarEntry_def fileU16_inside calendarZip_length)
       (simp_all add: le16_def calendarZip_def)
  have inside: "42 + 23 \<le> length calendarZip"
    by (simp add: calendarZip_length)
  have size: "compSize calendarEntry = 23" "localHdrOff calendarEntry = 0"
    by (simp_all add: calendarEntry_def)
  have bytes: "take 23 (drop 42 calendarZip) =
       [0x73, 0x65, 0x72, 0x76, 0x69, 0x63, 0x65, 0x5F, 0x69, 0x64, 0x2C, 0x6D, 0x6F, 0x6E,
        0x64, 0x61, 0x79, 0x0A, 0x53, 0x31, 0x2C, 0x31, 0x0A]"
    by (simp add: calendarZip_def)
  have broken: "fileU32 method12BrokenZip (localHdrOff method12Entry) \<noteq> LOCAL_SIG"
    by (simp add: method12Entry_def fileU32_def fileBytes_def le32_def method12BrokenZip_def
        LOCAL_SIG_def)
  have huge: "compSize hugeEntry = 2147483648"
    by (simp add: hugeEntry_def)
  show ?thesis
    using readEntryData_local_header [of calendarZip calendarEntry asciiRuntime 42 23]
      readEntryData_local_header [of method12BrokenZip method12Entry asciiRuntime 0 0]
      readEntryData_local_header [of hugeSizeZip hugeEntry asciiRuntime 0 0]
      sig lens inside size bytes broken huge hugeSizeZip_sig by simp
qed

text \<open>
  C2 as stated fails: in \<open>hugeSizeZip\<close> the local header of \<^verbatim>\<open>calendar.txt\<close> carries the
  signature and the central directory gives the compressed size \<open>2 ^ 31\<close>; the reader
  does not read that many bytes but fails with the error of the refused read.
\<close>

theorem huge_compressed_size_counterexample:
  "centralEntries asciiRuntime hugeSizeZip = Inr [hugeEntry]
   \<and> fileU32 hugeSizeZip (localHdrOff hugeEntry) = LOCAL_SIG
   \<and> compSize hugeEntry = 2147483648
   \<and> readEntryData hugeSizeZip hugeEntry = Inl RangeError
   \<and> readFromZipBody asciiRuntime hugeSizeZip [js ''calendar.txt''] = Inl RangeError"
proof -
  have entries: "centralEntries asciiRuntime hugeSizeZip = Inr [hugeEntry]"
    by (simp add: eval_defs hugeSizeZip_def hugeEntry_def)
  have data: "readEntryData hugeSizeZip hugeEntry = Inl RangeError"
    using hugeSizeZip_sig
    by (simp add: readEntryData_eq)
       (simp add: hugeEntry_def readSync_def Buffer_alloc_def)
  have body: "readFromZipBody asciiRuntime hugeSizeZip [js ''calendar.txt''] = Inl RangeError"
    using entries data
    by (simp add: readFromZipBody_def extractEntryAsText_def pick_def)
       (simp add: hugeEntry_def basename_def SLASH_def asciiRuntime_def asciiLower_def)
  show ?thesis using entries hugeSizeZip_sig data body by (simp add: hugeEntry_def)
qed

subsection \<open>Decompression\<close>



lemma method12Zip_length: "length method12Zip = 110"
  by (simp add: method12Zip_def)

lemma method12BrokenZip_length: "length method12BrokenZip = 110"
  by (simp add: method12BrokenZip_def)

lemma method12_entries: "centralEntries asciiRuntime method12Zip = Inr [method12Entry]"
  by (simp add: eval_defs method12Zip_def method12Entry_def)

lemma method12Broken_entries: "centralEntries asciiRuntime method12BrokenZip = Inr [method12Entry]"
  by (simp add: eval_defs method12BrokenZip_def method12Entry_def)


subsection \<open>The walk over the central directory\<close>

lemma walkCentral_done:
  "length cdBuf < p + 46 \<Longrightarrow> walkCentral rt cdBuf p entries = Inr entries"
  by (subst walkCentral.simps) simp

lemma walkCentral_step:
  "p + 46 \<le> length cdBuf \<Longrightarrow>
   walkCentral rt cdBuf p entries =
     (if le32 cdBuf p \<noteq> CEN_SIG then Inr entries
      else walkCentral rt cdBuf
             (p + 46 + le16 cdBuf (p + 28) + le16 cdBuf (p + 30) + le16 cdBuf (p + 32))
             (entries @
              [\<lparr> name = toStringUtf8 rt (take (le16 cdBuf (p + 28)) (drop (p + 46) cdBuf)),
                 localHdrOff = le32 cdBuf (p + 42), compSize = le32 cdBuf (p + 20),
                 uncompSize = le32 cdBuf (p + 24), method = le16 cdBuf (p + 10) \<rparr>]))"
  by (subst walkCentral.simps) (simp add: readUInt32LE_def readUInt16LE_def)

lemma walkCentral_total:
  "\<exists>es. walkCentral rt cdBuf p entries = Inr (entries @ es)"
proof (induction "length cdBuf - p" arbitrary: p entries rule: less_induct)
  case less
  show ?case
  proof (cases "p + 46 \<le> length cdBuf")
    case False
    then show ?thesis by (simp add: walkCentral_done)
  next
    case True
    show ?thesis
    proof (cases "le32 cdBuf p = CEN_SIG")
      case False
      then show ?thesis using True by (simp add: walkCentral_step)
    next
      case sig: True
      define q where "q = p + 46 + le16 cdBuf (p + 28) + le16 cdBuf (p + 30) + le16 cdBuf (p + 32)"
      define e where "e = \<lparr> name = toStringUtf8 rt (take (le16 cdBuf (p + 28)) (drop (p + 46) cdBuf)),
                 localHdrOff = le32 cdBuf (p + 42), compSize = le32 cdBuf (p + 20),
                 uncompSize = le32 cdBuf (p + 24), method = le16 cdBuf (p + 10) \<rparr>"
      have "length cdBuf - q < length cdBuf - p" using True by (simp add: q_def)
      then obtain es where "walkCentral rt cdBuf q (entries @ [e]) = Inr ((entries @ [e]) @ es)"
        using less by blast
      then have "walkCentral rt cdBuf p entries = Inr (entries @ (e # es))"
        using True sig by (simp add: walkCentral_step q_def e_def)
      then show ?thesis by blast
    qed
  qed
qed

text \<open>
  C5, as amended. While walking the central directory, four bytes at an entry boundary
  that are not the signature \<open>0x02014b50\<close> end the walk: the entries recorded so far are
  the result, and no error is raised. The walk never fails, so that a call which found
  the end-of-central-directory record and fetched the central directory (its size being
  below \<open>2 ^ 31\<close>) always reaches the selection of entries.
\<close>

theorem walkCentral_signature_mismatch:
  "(p + 46 \<le> length cdBuf \<and> le32 cdBuf p \<noteq> CEN_SIG \<longrightarrow>
      walkCentral rt cdBuf p entries = Inr entries)
   \<and> (\<exists>es. walkCentral rt cdBuf p entries = Inr (entries @ es))
   \<and> (findEocd file = Inr off \<and> le32 file (off + 12) < 2 ^ 31 \<longrightarrow>
        (\<exists>found. centralEntries rt file = Inr found))"
proof -
  have "\<exists>found. centralEntries rt file = Inr found"
    if "findEocd file = Inr off" "le32 file (off + 12) < 2 ^ 31"
    using that walkCentral_total [of rt _ 0 "[]"]
    by (simp add: centralEntries_def readCentralDirectory_found)
  then show ?thesis
    using walkCentral_total [of rt cdBuf p entries] by (simp add: walkCentral_step)
qed

lemma brokenCentral_eocd: "findEocd brokenCentralZip = Inr 174"
  by (simp add: eval_defs brokenCentralZip_def)

lemma brokenCentral_dir:
  "readCentralDirectory brokenCentralZip = Inr (take 102 (drop 72 brokenCentralZip))"
  by (simp add: eval_defs brokenCentralZip_def)

lemma brokenCentral_entries: "centralEntries asciiRuntime brokenCentralZip = Inr [pEntry]"
  by (simp add: eval_defs brokenCentralZip_def pEntry_def)

lemma brokenCentral_sig: "le32 (take 102 (drop 72 brokenCentralZip)) 51 \<noteq> CEN_SIG"
  by (simp add: le32_def brokenCentralZip_def CEN_SIG_def)

theorem walkCentral_signature_mismatch_witness:
  "walkCentral asciiRuntime (take 102 (drop 72 brokenCentralZip)) 51 [pEntry] = Inr [pEntry]
   \<and> (\<exists>found. centralEntries asciiRuntime brokenCentralZip = Inr found)"
proof -
  have len: "51 + 46 \<le> length (take 102 (drop 72 brokenCentralZip))"
    by (simp add: brokenCentralZip_def)
  have cdSize: "le32 brokenCentralZip (174 + 12) < 2 ^ 31"
    by (simp add: le32_def brokenCentralZip_def)
  show ?thesis
    using walkCentral_signature_mismatch
      [of 51 "take 102 (drop 72 brokenCentralZip)" asciiRuntime "[pEntry]" brokenCentralZip 174]
      len brokenCentral_sig brokenCentral_eocd cdSize
    by simp
qed

text \<open>
  C5 as stated fails: in \<open>brokenCentralZip\<close> the second record of the central
  directory starts at position 51 with bytes that are not the signature, and the call
  returns the mapping for the first member instead of failing.
\<close>

theorem broken_central_record_counterexample:
  "readCentralDirectory brokenCentralZip = Inr (take 102 (drop 72 brokenCentralZip))
   \<and> 46 + le16 (take 102 (drop 72 brokenCentralZip)) 28
        + le16 (take 102 (drop 72 brokenCentralZip)) 30
        + le16 (take 102 (drop 72 brokenCentralZip)) 32 = 51
   \<and> le32 (take 102 (drop 72 brokenCentralZip)) 51 \<noteq> CEN_SIG
   \<and> readFromZipBody asciiRuntime brokenCentralZip [js ''p.txt'', js ''q.txt'']
       = Inr [(js ''p.txt'', js ''1'')]"
proof -
  have lens: "46 + le16 (take 102 (drop 72 brokenCentralZip)) 28
        + le16 (take 102 (drop 72 brokenCentralZip)) 30
        + le16 (take 102 (drop 72 brokenCentralZip)) 32 = 51"
    by (simp add: le16_def brokenCentralZip_def)
  have body: "readFromZipBody asciiRuntime brokenCentralZip [js ''p.txt'', js ''q.txt'']
       = Inr [(js ''p.txt'', js ''1'')]"
    using brokenCentral_entries
    by (simp add: readFromZipBody_def)
       (simp add: eval_defs brokenCentralZip_def pEntry_def)
  show ?thesis using brokenCentral_dir lens brokenCentral_sig body by simp
qed

subsection \<open>Entries with the same base name\<close>

lemma find_snoc:
  "find P (xs @ [x]) = (case find P xs of Some y \<Rightarrow> Some y | None \<Rightarrow> if P x then Some x else None)"
  by (induction xs) auto

lemma extractAll_map_of:
  "extractAll rt file es out0 = Inr out \<Longrightarrow>
   map_of out k =
     (if k = PROTO then map_of out0 k
      else case lastEntryNamed k es of
             None \<Rightarrow> map_of out0 k
           | Some e \<Rightarrow> okValue (extractEntryAsText rt file e))"
proof (induction es arbitrary: out0)
  case Nil
  then show ?case by (simp add: lastEntryNamed_def)
next
  case (Cons x es)
  from Cons.prems obtain t where t: "extractEntryAsText rt file x = Inr t"
    and rest: "extractAll rt file es (obj_set out0 (basename (name x)) t) = Inr out"
    by (cases "extractEntryAsText rt file x") simp_all
  show ?case
    using Cons.IH [OF rest] t
    by (auto simp: lastEntryNamed_def find_snoc map_of_obj_set okValue_def split: option.splits)
qed

text \<open>
  C4, as amended. In the mapping a call returns, a base name, spelled as in the archive,
  is bound to the decoded content of the last picked entry with exactly that base name
  in central-directory order: each picked entry overwrites what an earlier one with the
  same base name left. A name that no picked entry has is not bound. (The key
  \<^verbatim>\<open>__proto__\<close> is never bound.)
\<close>

theorem readFromZip_last_match:
  assumes "centralEntries rt file = Inr entries"
    and "readFromZipBody rt file wantNames = Inr out"
    and "k \<noteq> PROTO"
  shows "map_of out k =
     (case lastEntryNamed k (pick rt wantNames entries) of
        None \<Rightarrow> None
      | Some e \<Rightarrow> okValue (extractEntryAsText rt file e))"
proof -
  from assms(1,2) have "extractAll rt file (pick rt wantNames entries) [] = Inr out"
    by (simp add: readFromZipBody_def)
  from extractAll_map_of [OF this, of k] assms(3) show ?thesis
    by (simp split: option.splits)
qed

lemma twoDirs_entries: "centralEntries asciiRuntime twoDirsZip = Inr [axEntry, bxEntry]"
  by (simp add: eval_defs twoDirsZip_def axEntry_def bxEntry_def)

lemma twoDirs_first: "extractEntryAsText asciiRuntime twoDirsZip axEntry = Inr (js ''1'')"
  by (simp add: eval_defs twoDirsZip_def axEntry_def)

lemma twoDirs_second: "extractEntryAsText asciiRuntime twoDirsZip bxEntry = Inr (js ''2'')"
  by (simp add: eval_defs twoDirsZip_def bxEntry_def)

lemma twoDirs_pick: "pick asciiRuntime [js ''X.TXT''] [axEntry, bxEntry] = [axEntry, bxEntry]"
  by (simp add: pick_def basename_def SLASH_def asciiRuntime_def asciiLower_def axEntry_def
      bxEntry_def)

lemma twoDirs_body:
  "readFromZipBody asciiRuntime twoDirsZip [js ''X.TXT''] = Inr [(js ''x.txt'', js ''2'')]"
  using twoDirs_entries twoDirs_first twoDirs_second twoDirs_pick
  by (simp add: readFromZipBody_def)
     (simp add: axEntry_def bxEntry_def basename_def SLASH_def obj_set_def PROTO_def)

theorem readFromZip_last_match_witness:
  "readFromZipBody asciiRuntime twoDirsZip [js ''X.TXT''] = Inr [(js ''x.txt'', js ''2'')]
   \<and> lastEntryNamed (js ''x.txt'') (pick asciiRuntime [js ''X.TXT''] [axEntry, bxEntry])
       = Some bxEntry
   \<and> map_of [(js ''x.txt'', js ''2'')] (js ''x.txt'')
       = okValue (extractEntryAsText asciiRuntime twoDirsZip bxEntry)"
proof -
  have k: "js ''x.txt'' \<noteq> PROTO" by (simp add: PROTO_def)
  have last: "lastEntryNamed (js ''x.txt'') (pick asciiRuntime [js ''X.TXT''] [axEntry, bxEntry])
       = Some bxEntry"
    by (subst twoDirs_pick)
       (simp add: lastEntryNamed_def axEntry_def bxEntry_def basename_def SLASH_def)
  show ?thesis
    using readFromZip_last_match [OF twoDirs_entries twoDirs_body k] last twoDirs_body
    by simp
qed

text \<open>
  C4 as stated fails: \<open>twoDirsZip\<close> holds \<^verbatim>\<open>a/x.txt\<close> with content \<^verbatim>\<open>1\<close> before
  \<^verbatim>\<open>b/x.txt\<close> with content \<^verbatim>\<open>2\<close>; asked for \<^verbatim>\<open>X.TXT\<close>, the reader binds \<^verbatim>\<open>x.txt\<close>
  to \<^verbatim>\<open>2\<close>, the content of the later entry.
\<close>

theorem first_match_counterexample:
  "centralEntries asciiRuntime twoDirsZip = Inr [axEntry, bxEntry]
   \<and> basename (name axEntry) = js ''x.txt''
   \<and> basename (name bxEntry) = js ''x.txt''
   \<and> extractEntryAsText asciiRuntime twoDirsZip axEntry = Inr (js ''1'')
   \<and> readFromZipBody asciiRuntime twoDirsZip [js ''X.TXT''] = Inr [(js ''x.txt'', js ''2'')]"
  using twoDirs_entries twoDirs_first twoDirs_body
  by (simp add: axEntry_def bxEntry_def basename_def SLASH_def)

subsection \<open>The file descriptor\<close>

text \<open>
  C9 asks that the descriptor opened by a call be closed on every exit path. The reader
  run on a file system with no descriptor open: when the extraction of the selected
  entry fails, for an unsupported method as for a broken local header, descriptor 3
  is still open after the call; after a successful call none is.
\<close>

theorem readFromZip_leaves_handle_open:
  "readFromZip asciiRuntime (diskWith method12Zip) (js ''gtfs.zip'') [js ''m.txt'']
     = (Inl (UnsupportedMethod 12), (diskWith method12Zip)\<lparr>open_fds := [3]\<rparr>)
   \<and> readFromZip asciiRuntime (diskWith method12BrokenZip) (js ''gtfs.zip'') [js ''m.txt'']
     = (Inl LocalHeaderBroken, (diskWith method12BrokenZip)\<lparr>open_fds := [3]\<rparr>)
   \<and> readFromZip asciiRuntime (diskWith twoDirsZip) (js ''gtfs.zip'') [js ''X.TXT'']
     = (Inr [(js ''x.txt'', js ''2'')], diskWith twoDirsZip)"
proof -
  have m12: "readFromZipBody asciiRuntime method12Zip [js ''m.txt''] = Inl (UnsupportedMethod 12)"
    using method12_entries
    by (simp add: readFromZipBody_def)
       (simp add: eval_defs method12Zip_def method12Entry_def)
  have broken: "readFromZipBody asciiRuntime method12BrokenZip [js ''m.txt''] = Inl LocalHeaderBroken"
    using method12Broken_entries
    by (simp add: readFromZipBody_def)
       (simp add: eval_defs method12BrokenZip_def method12Entry_def)
  show ?thesis
    using m12 broken twoDirs_body
    by (simp add: readFromZip_def openSync_def closeSync_def diskWith_def Let_def)
qed

end
